theory Spec2Isabelle
  imports Main "HOL-Library.AList"
begin

section \<open>Python values, exceptions and loops\<close>

text \<open>
  The program is Python. A \<^verbatim>\<open>str\<close> is a \<^typ>\<open>string\<close>; iterating over a
  production yields its one-character strings. A \<^verbatim>\<open>dict\<close> is an association list in
  insertion order (\<^const>\<open>map_of\<close> reads it, \<^const>\<open>AList.update\<close> writes it: an
  existing key keeps its place, a new key goes to the end). A \<^verbatim>\<open>set\<close> is a list
  without repetitions; the order in which Python iterates over a set is not specified,
  the model iterates in list order. An exception is the outcome \<open>Raises\<close>. Every
  \<^verbatim>\<open>while\<close> loop takes a fuel argument that bounds its number of iterations;
  \<open>OutOfFuel\<close> says that the bound was reached before the loop ended.
\<close>

datatype py_error = KeyError | IndexError | ValueError

datatype 'a outcome = Returns 'a | Raises py_error | OutOfFuel

type_synonym 'a pyset = "'a list"

type_synonym ('k, 'v) dict = "('k \<times> 'v) list"

fun then_do :: "'a outcome \<Rightarrow> ('a \<Rightarrow> 'b outcome) \<Rightarrow> 'b outcome" where
  "then_do (Returns x) f = f x"
| "then_do (Raises e) f = Raises e"
| "then_do OutOfFuel f = OutOfFuel"

text \<open>A \<^verbatim>\<open>for\<close> loop over a list whose body may raise.\<close>

fun for_each :: "('a \<Rightarrow> 's \<Rightarrow> 's outcome) \<Rightarrow> 'a list \<Rightarrow> 's \<Rightarrow> 's outcome" where
  "for_each f [] s = Returns s"
| "for_each f (x # xs) s = then_do (f x s) (for_each f xs)"

definition set_add :: "'a \<Rightarrow> 'a pyset \<Rightarrow> 'a pyset" where
  "set_add x xs = (if x \<in> set xs then xs else xs @ [x])"

definition set_update :: "'a list \<Rightarrow> 'a pyset \<Rightarrow> 'a pyset" where
  "set_update ys xs = fold set_add ys xs"

text \<open>
  A character of the model is a code point below 256: the strings of the model are the
  Python strings over Latin-1, which the ASCII grammars of the program are.
  \<^verbatim>\<open>str.isupper\<close> holds for a string with at least one cased character and no
  lowercase one. Below 256 the uppercase characters are \<open>A\<close> to \<open>Z\<close> and the code points
  192 to 214 and 216 to 222; the lowercase ones are \<open>a\<close> to \<open>z\<close>, 170, 181, 186, 223 to
  246 and 248 to 255; no other character is cased.
\<close>

definition upper_letters :: string where
  "upper_letters = ''ABCDEFGHIJKLMNOPQRSTUVWXYZ'' @
     [CHR 0xC0, CHR 0xC1, CHR 0xC2, CHR 0xC3, CHR 0xC4, CHR 0xC5, CHR 0xC6, CHR 0xC7, CHR
      0xC8, CHR 0xC9, CHR 0xCA, CHR 0xCB, CHR 0xCC, CHR 0xCD, CHR 0xCE, CHR 0xCF, CHR 0xD0,
      CHR 0xD1, CHR 0xD2, CHR 0xD3, CHR 0xD4, CHR 0xD5, CHR 0xD6, CHR 0xD8, CHR 0xD9, CHR
      0xDA, CHR 0xDB, CHR 0xDC, CHR 0xDD, CHR 0xDE]"

definition lower_letters :: string where
  "lower_letters = ''abcdefghijklmnopqrstuvwxyz'' @
     [CHR 0xAA, CHR 0xB5, CHR 0xBA, CHR 0xDF, CHR 0xE0, CHR 0xE1, CHR 0xE2, CHR 0xE3, CHR
      0xE4, CHR 0xE5, CHR 0xE6, CHR 0xE7, CHR 0xE8, CHR 0xE9, CHR 0xEA, CHR 0xEB, CHR 0xEC,
      CHR 0xED, CHR 0xEE, CHR 0xEF, CHR 0xF0, CHR 0xF1, CHR 0xF2, CHR 0xF3, CHR 0xF4, CHR
      0xF5, CHR 0xF6, CHR 0xF8, CHR 0xF9, CHR 0xFA, CHR 0xFB, CHR 0xFC, CHR 0xFD, CHR 0xFE,
      CHR 0xFF]"

definition isupper :: "string \<Rightarrow> bool" where
  "isupper s = (list_ex (\<lambda>c. c \<in> set upper_letters) s \<and> list_all (\<lambda>c. c \<notin> set lower_letters) s)"

definition symbols_of :: "string \<Rightarrow> string list" where
  "symbols_of production = map (\<lambda>c. [c]) production"

definition endswith_dollar :: "string \<Rightarrow> bool" where
  "endswith_dollar s = (s \<noteq> [] \<and> last s = CHR ''$'')"

section \<open>grammar.py\<close>

record Grammar =
  productions :: "(string, string list) dict"
  terminals :: "string pyset"
  non_terminals :: "string pyset"
  start_symbol :: string

definition Grammar_init :: Grammar where
  "Grammar_init = \<lparr>productions = [], terminals = [], non_terminals = [], start_symbol = ''S''\<rparr>"

text \<open>The inner loop of \<^verbatim>\<open>add_production\<close>: every symbol of a production is classified.\<close>

fun classify :: "string list \<Rightarrow> Grammar \<Rightarrow> Grammar" where
  "classify [] g = g"
| "classify (symbol # rest) g =
     classify rest
       (if isupper symbol then g\<lparr>non_terminals := set_add symbol (non_terminals g)\<rparr>
        else if symbol \<noteq> ''e'' then g\<lparr>terminals := set_add symbol (terminals g)\<rparr>
        else g)"

fun add_each :: "string \<Rightarrow> string list \<Rightarrow> Grammar \<Rightarrow> Grammar" where
  "add_each non_terminal [] g = g"
| "add_each non_terminal (production # prods) g =
     add_each non_terminal prods
       (classify (symbols_of production)
          (g\<lparr>productions := AList.map_entry non_terminal (\<lambda>ps. ps @ [production]) (productions g)\<rparr>))"

definition add_production :: "string \<Rightarrow> string list \<Rightarrow> Grammar \<Rightarrow> Grammar" where
  "add_production non_terminal prods g =
     add_each non_terminal prods
       (if map_of (productions g) non_terminal = None
        then g\<lparr>productions := AList.update non_terminal [] (productions g),
               non_terminals := set_add non_terminal (non_terminals g)\<rparr>
        else g)"

text \<open>
  \<^verbatim>\<open>read_grammar\<close> splits each line at \<^verbatim>\<open>->\<close> and at white space and calls
  \<^verbatim>\<open>add_production\<close> once per line; \<open>grammar_of\<close> is that sequence of calls on the
  lines already split.
\<close>

definition grammar_of :: "(string \<times> string list) list \<Rightarrow> Grammar" where
  "grammar_of rules = fold (\<lambda>(non_terminal, prods). add_production non_terminal prods) rules Grammar_init"

text \<open>
  The loop \<^verbatim>\<open>for term in terms: if term not in d[k]: d[k].add(term); updated = True\<close>
  on a dictionary of sets and its \<^verbatim>\<open>updated\<close> flag. \<^verbatim>\<open>d[k]\<close> is read once per
  term, so a missing key raises only when there is a term.
\<close>

definition add_all ::
  "string \<Rightarrow> string list \<Rightarrow> (string, string pyset) dict \<times> bool \<Rightarrow> ((string, string pyset) dict \<times> bool) outcome"
where
  "add_all k terms st =
     (if terms = [] then Returns st
      else case map_of (fst st) k of
             None \<Rightarrow> Raises KeyError
           | Some old \<Rightarrow>
               Returns (if list_all (\<lambda>t. t \<in> set old) terms then st
                        else (AList.update k (set_update terms old) (fst st), True)))"

subsection \<open>get_first_set\<close>

text \<open>
  The walk over the symbols of a production \<open>A \<rightarrow> Y1 Y2 ... Yk\<close>. It returns the
  dictionary, the \<^verbatim>\<open>updated\<close> flag and \<^verbatim>\<open>eps_in_everything\<close>.
\<close>

fun first_walk ::
  "string \<Rightarrow> string list \<Rightarrow> (string, string pyset) dict \<times> bool
     \<Rightarrow> (((string, string pyset) dict \<times> bool) \<times> bool) outcome"
where
  "first_walk non_terminal [] st = Returns (st, True)"
| "first_walk non_terminal (symbol # rest) st =
     (let first1 = (case map_of (fst st) symbol of
                      None \<Rightarrow> AList.update symbol (if isupper symbol then [] else [symbol]) (fst st)
                    | Some _ \<Rightarrow> fst st);
          first_symbol = (case map_of first1 symbol of None \<Rightarrow> [] | Some s \<Rightarrow> s)
      in then_do (add_all non_terminal (filter (\<lambda>term. term \<noteq> ''e'') first_symbol) (first1, snd st))
           (\<lambda>st'. if ''e'' \<in> set first_symbol then first_walk non_terminal rest st'
                  else Returns (st', False)))"

definition first_production ::
  "string \<Rightarrow> string \<Rightarrow> (string, string pyset) dict \<times> bool \<Rightarrow> ((string, string pyset) dict \<times> bool) outcome"
where
  "first_production non_terminal production st =
     (if production = ''e'' then add_all non_terminal [''e''] st
      else then_do (first_walk non_terminal (symbols_of production) st)
             (\<lambda>(st', eps_in_everything).
                if eps_in_everything then add_all non_terminal [''e''] st' else Returns st'))"

definition first_pass ::
  "Grammar \<Rightarrow> (string, string pyset) dict \<times> bool \<Rightarrow> ((string, string pyset) dict \<times> bool) outcome"
where
  "first_pass g st =
     for_each (\<lambda>(non_terminal, prods). for_each (first_production non_terminal) prods) (productions g) st"

fun first_loop :: "nat \<Rightarrow> Grammar \<Rightarrow> (string, string pyset) dict \<Rightarrow> (string, string pyset) dict outcome" where
  "first_loop 0 g first = OutOfFuel"
| "first_loop (Suc fuel) g first =
     then_do (first_pass g (first, False))
       (\<lambda>(first', updated). if updated then first_loop fuel g first' else Returns first')"

definition first_init :: "Grammar \<Rightarrow> (string, string pyset) dict" where
  "first_init g =
     AList.update ''e'' [''e'']
       (fold (\<lambda>terminal. AList.update terminal [terminal]) (terminals g)
          (fold (\<lambda>symbol. AList.update symbol []) (non_terminals g) []))"

definition get_first_set :: "nat \<Rightarrow> Grammar \<Rightarrow> (string, string pyset) dict outcome" where
  "get_first_set fuel g = first_loop fuel g (first_init g)"

subsection \<open>get_follow_set\<close>

text \<open>
  FIRST of the rest of a production, as the FOLLOW computation walks it: the set
  \<^verbatim>\<open>first_rest\<close> and the flag \<^verbatim>\<open>all_have_epsilon\<close>.
\<close>

fun rest_first :: "(string, string pyset) dict \<Rightarrow> string list \<Rightarrow> string pyset \<Rightarrow> string pyset \<times> bool" where
  "rest_first first_sets [] first_rest = (first_rest, True)"
| "rest_first first_sets (symbol # rest) first_rest =
     (case map_of first_sets symbol of
        None \<Rightarrow> if isupper symbol then rest_first first_sets rest first_rest
                else (set_add symbol first_rest, False)
      | Some first_symbol \<Rightarrow>
          (let first_rest' = set_update (filter (\<lambda>term. term \<noteq> ''e'') first_symbol) first_rest
           in if ''e'' \<in> set first_symbol then rest_first first_sets rest first_rest'
              else (first_rest', False)))"

text \<open>\<^verbatim>\<open>for term in follow[non_terminal]: if term not in follow[symbol]: ...\<close>\<close>

definition copy_follow ::
  "string \<Rightarrow> string \<Rightarrow> (string, string pyset) dict \<times> bool \<Rightarrow> ((string, string pyset) dict \<times> bool) outcome"
where
  "copy_follow non_terminal symbol st =
     (case map_of (fst st) non_terminal of
        None \<Rightarrow> Raises KeyError
      | Some follow_nt \<Rightarrow> add_all symbol follow_nt st)"

text \<open>The loop over the positions of a production; the argument is the part not yet visited.\<close>

fun follow_walk ::
  "(string, string pyset) dict \<Rightarrow> string \<Rightarrow> string list \<Rightarrow> (string, string pyset) dict \<times> bool
     \<Rightarrow> ((string, string pyset) dict \<times> bool) outcome"
where
  "follow_walk first_sets non_terminal [] st = Returns st"
| "follow_walk first_sets non_terminal (symbol # rest) st =
     (if \<not> isupper symbol then follow_walk first_sets non_terminal rest st
      else if rest \<noteq> [] then
        (case rest_first first_sets rest [] of
           (first_rest, all_have_epsilon) \<Rightarrow>
             then_do (add_all symbol first_rest st)
               (\<lambda>st'. then_do (if all_have_epsilon then copy_follow non_terminal symbol st' else Returns st')
                         (follow_walk first_sets non_terminal rest)))
      else then_do (copy_follow non_terminal symbol st) (follow_walk first_sets non_terminal rest))"

definition follow_production ::
  "(string, string pyset) dict \<Rightarrow> string \<Rightarrow> string \<Rightarrow> (string, string pyset) dict \<times> bool
     \<Rightarrow> ((string, string pyset) dict \<times> bool) outcome"
where
  "follow_production first_sets non_terminal production st =
     (if production = ''e'' then Returns st
      else follow_walk first_sets non_terminal (symbols_of production) st)"

definition follow_pass ::
  "Grammar \<Rightarrow> (string, string pyset) dict \<Rightarrow> (string, string pyset) dict \<times> bool
     \<Rightarrow> ((string, string pyset) dict \<times> bool) outcome"
where
  "follow_pass g first_sets st =
     for_each (\<lambda>(non_terminal, prods). for_each (follow_production first_sets non_terminal) prods)
       (productions g) st"

fun follow_loop ::
  "nat \<Rightarrow> Grammar \<Rightarrow> (string, string pyset) dict \<Rightarrow> (string, string pyset) dict
     \<Rightarrow> (string, string pyset) dict outcome"
where
  "follow_loop 0 g first_sets follow = OutOfFuel"
| "follow_loop (Suc fuel) g first_sets follow =
     then_do (follow_pass g first_sets (follow, False))
       (\<lambda>(follow', updated). if updated then follow_loop fuel g first_sets follow' else Returns follow')"

definition follow_init :: "Grammar \<Rightarrow> (string, string pyset) dict" where
  "follow_init g = fold (\<lambda>non_terminal. AList.update non_terminal []) (non_terminals g) []"

definition get_follow_set ::
  "nat \<Rightarrow> Grammar \<Rightarrow> (string, string pyset) dict \<Rightarrow> (string, string pyset) dict outcome"
where
  "get_follow_set fuel g first_sets =
     (case map_of (follow_init g) (start_symbol g) of
        None \<Rightarrow> Raises KeyError
      | Some follow_start \<Rightarrow>
          follow_loop fuel g first_sets
            (AList.update (start_symbol g) (set_add ''$'' follow_start) (follow_init g)))"

section \<open>ll1_parser.py\<close>

text \<open>
  A cell of the LL(1) table holds a production, or \<^verbatim>\<open>None\<close>, the conflict mark:
  \<open>Some p\<close> and \<open>None\<close> below. A cell that was never written is missing from its row.
\<close>

type_synonym ll1_table = "(string, (string, string option) dict) dict"

record LL1Parser =
  grammar :: Grammar
  first_sets :: "(string, string pyset) dict"
  follow_sets :: "(string, string pyset) dict"
  parse_table :: ll1_table
  is_ll1 :: bool

text \<open>The loop of \<^verbatim>\<open>_get_first_of_string\<close> with its set and its flag.\<close>

fun first_of_symbols :: "(string, string pyset) dict \<Rightarrow> string list \<Rightarrow> string pyset \<Rightarrow> string pyset \<times> bool" where
  "first_of_symbols fs [] first_set = (first_set, True)"
| "first_of_symbols fs (symbol # rest) first_set =
     (case map_of fs symbol of
        None \<Rightarrow> (set_add symbol first_set, False)
      | Some first_symbol \<Rightarrow>
          (let first_set' = set_update (filter (\<lambda>term. term \<noteq> ''e'') first_symbol) first_set
           in if ''e'' \<in> set first_symbol then first_of_symbols fs rest first_set'
              else (first_set', False)))"

definition get_first_of_string :: "(string, string pyset) dict \<Rightarrow> string \<Rightarrow> string pyset" where
  "get_first_of_string fs str =
     (if str = [] \<or> str = ''e'' then [''e'']
      else case first_of_symbols fs (symbols_of str) [] of
             (first_set, all_derive_epsilon) \<Rightarrow>
               if all_derive_epsilon then set_add ''e'' first_set else first_set)"

text \<open>
  One write into the table, as both loops of \<^verbatim>\<open>_build_parse_table\<close> do it: an
  occupied cell becomes \<^verbatim>\<open>None\<close>, a free one takes the production.
\<close>

definition write_cell :: "string \<Rightarrow> string \<Rightarrow> string \<Rightarrow> ll1_table \<Rightarrow> ll1_table outcome" where
  "write_cell non_terminal production terminal tbl =
     (case map_of tbl non_terminal of
        None \<Rightarrow> Raises KeyError
      | Some row \<Rightarrow>
          Returns (AList.update non_terminal
                     (AList.update terminal
                        (if map_of row terminal \<noteq> None then None else Some production) row)
                     tbl))"

definition table_production ::
  "(string, string pyset) dict \<Rightarrow> (string, string pyset) dict \<Rightarrow> string \<Rightarrow> string \<Rightarrow> ll1_table
     \<Rightarrow> ll1_table outcome"
where
  "table_production fs fw non_terminal production tbl =
     (let first_of_production = get_first_of_string fs production
      in then_do (for_each (write_cell non_terminal production)
                    (filter (\<lambda>terminal. terminal \<noteq> ''e'') first_of_production) tbl)
           (\<lambda>tbl'.
              if ''e'' \<in> set first_of_production then
                (case map_of fw non_terminal of
                   None \<Rightarrow> Raises KeyError
                 | Some follow_nt \<Rightarrow> for_each (write_cell non_terminal production) follow_nt tbl')
              else Returns tbl'))"

definition table_init :: "Grammar \<Rightarrow> ll1_table" where
  "table_init g = fold (\<lambda>non_terminal. AList.update non_terminal []) (non_terminals g) []"

definition build_parse_table ::
  "Grammar \<Rightarrow> (string, string pyset) dict \<Rightarrow> (string, string pyset) dict \<Rightarrow> ll1_table outcome"
where
  "build_parse_table g fs fw =
     for_each (\<lambda>(non_terminal, prods). for_each (table_production fs fw non_terminal) prods)
       (productions g) (table_init g)"

definition check_if_ll1 :: "ll1_table \<Rightarrow> bool" where
  "check_if_ll1 tbl =
     list_all (\<lambda>(non_terminal, table_row). list_all (\<lambda>(terminal, production). production \<noteq> None) table_row)
       tbl"

definition LL1Parser_init :: "nat \<Rightarrow> Grammar \<Rightarrow> LL1Parser outcome" where
  "LL1Parser_init fuel g =
     then_do (get_first_set fuel g) (\<lambda>fs.
     then_do (get_follow_set fuel g fs) (\<lambda>fw.
     then_do (build_parse_table g fs fw) (\<lambda>tbl.
     Returns \<lparr>grammar = g, first_sets = fs, follow_sets = fw, parse_table = tbl,
              is_ll1 = check_if_ll1 tbl\<rparr>)))"

text \<open>
  The main loop of \<^verbatim>\<open>parse\<close>. The stack is a list whose head is the top. The loop
  ends either because the stack is empty, with the cursor where it is then, or by one
  of the \<^verbatim>\<open>return False\<close> statements in its body.
\<close>

datatype loop_end = StackEmpty nat | Rejected

fun ll1_loop :: "nat \<Rightarrow> ll1_table \<Rightarrow> string \<Rightarrow> string list \<Rightarrow> nat \<Rightarrow> loop_end outcome" where
  "ll1_loop fuel tbl input_string [] input_ptr = Returns (StackEmpty input_ptr)"
| "ll1_loop 0 tbl input_string (top_symbol # stack) input_ptr = OutOfFuel"
| "ll1_loop (Suc fuel) tbl input_string (top_symbol # stack) input_ptr =
     (let current_input = (if input_ptr < length input_string then [input_string ! input_ptr] else ''$'')
      in if top_symbol = ''e'' then ll1_loop fuel tbl input_string stack input_ptr
         else if \<not> isupper top_symbol then
           (if top_symbol = current_input then ll1_loop fuel tbl input_string stack (input_ptr + 1)
            else Returns Rejected)
         else
           (case map_of tbl top_symbol of
              None \<Rightarrow> Raises KeyError
            | Some row \<Rightarrow>
                (case map_of row current_input of
                   None \<Rightarrow> Returns Rejected
                 | Some None \<Rightarrow> Returns Rejected
                 | Some (Some production) \<Rightarrow>
                     if production \<noteq> ''e''
                     then ll1_loop fuel tbl input_string (symbols_of production @ stack) input_ptr
                     else ll1_loop fuel tbl input_string stack input_ptr)))"

definition with_end_marker :: "string \<Rightarrow> string" where
  "with_end_marker input_string = (if endswith_dollar input_string then input_string else input_string @ ''$'')"

definition accepts_at :: "string \<Rightarrow> loop_end \<Rightarrow> bool" where
  "accepts_at input_string r =
     (case r of
        Rejected \<Rightarrow> False
      | StackEmpty input_ptr \<Rightarrow>
          input_ptr \<ge> length input_string
          \<or> (int input_ptr = int (length input_string) - 1 \<and> last input_string = CHR ''$''))"

definition LL1Parser_parse :: "nat \<Rightarrow> LL1Parser \<Rightarrow> string \<Rightarrow> bool outcome" where
  "LL1Parser_parse fuel P input_string =
     (if \<not> is_ll1 P then Returns False
      else then_do (ll1_loop fuel (parse_table P) (with_end_marker input_string)
                      [start_symbol (grammar P), ''$''] 0)
             (\<lambda>r. Returns (accepts_at (with_end_marker input_string) r)))"

section \<open>slr1_parser.py\<close>

text \<open>
  An LR(0) item is the tuple \<^verbatim>\<open>(non_terminal, production, dot_pos)\<close>. A state is a
  set of items; two states are the same state when they hold the same items, whatever
  the order of their lists.
\<close>

type_synonym item = "string \<times> string \<times> nat"

type_synonym transitions = "((nat \<times> string), nat) dict"

type_synonym action_table = "(nat, (string, string option) dict) dict"

type_synonym goto_table = "(nat, (string, nat) dict) dict"

record SLR1Parser =
  slr_grammar :: Grammar
  augmented_grammar :: Grammar
  slr_first_sets :: "(string, string pyset) dict"
  slr_follow_sets :: "(string, string pyset) dict"
  canonical_collection :: "item pyset list \<times> transitions"
  action_table :: action_table
  goto_table :: goto_table
  is_slr1 :: bool

text \<open>The name of the added start symbol, \<^verbatim>\<open>"S'"\<close>: the letter and an apostrophe.\<close>

definition S_prime :: string where
  "S_prime = [CHR ''S'', CHR 0x27]"

definition augment_grammar :: "Grammar \<Rightarrow> Grammar" where
  "augment_grammar g =
     (add_production S_prime [start_symbol g]
        (fold (\<lambda>(non_terminal, prods) aug. fold (\<lambda>production. add_production non_terminal [production]) prods aug)
           (productions g) Grammar_init))
     \<lparr>start_symbol := S_prime\<rparr>"

text \<open>The body of the loop over the items of \<^verbatim>\<open>_closure\<close>, for one item.\<close>

definition closure_item :: "Grammar \<Rightarrow> item pyset \<Rightarrow> item \<Rightarrow> item pyset \<Rightarrow> item pyset outcome" where
  "closure_item aug cl it new_items =
     (case it of (non_terminal, production, dot_pos) \<Rightarrow>
        if dot_pos \<ge> length production \<or> production = ''e'' then Returns new_items
        else if [production ! dot_pos] \<in> set (non_terminals aug) then
          (case map_of (productions aug) [production ! dot_pos] of
             None \<Rightarrow> Raises KeyError
           | Some prods \<Rightarrow>
               Returns (fold (\<lambda>p acc. if ([production ! dot_pos], p, 0) \<in> set cl then acc
                                       else set_add ([production ! dot_pos], p, 0) acc)
                          prods new_items))
        else Returns new_items)"

fun closure_loop :: "nat \<Rightarrow> Grammar \<Rightarrow> item pyset \<Rightarrow> item pyset outcome" where
  "closure_loop 0 aug cl = OutOfFuel"
| "closure_loop (Suc fuel) aug cl =
     then_do (for_each (closure_item aug cl) cl [])
       (\<lambda>new_items. if new_items = [] then Returns cl
                     else closure_loop fuel aug (set_update new_items cl))"

definition closure :: "nat \<Rightarrow> Grammar \<Rightarrow> item pyset \<Rightarrow> item pyset outcome" where
  "closure fuel aug items = closure_loop fuel aug items"

definition goto_items :: "item pyset \<Rightarrow> string \<Rightarrow> item pyset" where
  "goto_items items symbol =
     fold (\<lambda>it acc. case it of (non_terminal, production, dot_pos) \<Rightarrow>
             if dot_pos \<ge> length production \<or> production = ''e'' then acc
             else if [production ! dot_pos] = symbol then set_add (non_terminal, production, dot_pos + 1) acc
             else acc)
       items []"

definition goto :: "nat \<Rightarrow> Grammar \<Rightarrow> item pyset \<Rightarrow> string \<Rightarrow> item pyset outcome" where
  "goto fuel aug items symbol = closure fuel aug (goto_items items symbol)"

text \<open>Equality of two Python sets, and \<^verbatim>\<open>list.index\<close> on a list of sets.\<close>

definition same_set :: "'a pyset \<Rightarrow> 'a pyset \<Rightarrow> bool" where
  "same_set xs ys = (list_all (\<lambda>x. x \<in> set ys) xs \<and> list_all (\<lambda>y. y \<in> set xs) ys)"

fun state_index :: "'a pyset list \<Rightarrow> 'a pyset \<Rightarrow> nat option" where
  "state_index [] r = None"
| "state_index (s # states) r =
     (if same_set s r then Some 0 else map_option Suc (state_index states r))"

text \<open>The body of \<^verbatim>\<open>for symbol in symbols\<close> in \<^verbatim>\<open>_build_canonical_collection\<close>.\<close>

definition canonical_symbol ::
  "nat \<Rightarrow> Grammar \<Rightarrow> nat \<Rightarrow> item pyset \<Rightarrow> string \<Rightarrow> item pyset list \<times> transitions
     \<Rightarrow> (item pyset list \<times> transitions) outcome"
where
  "canonical_symbol cfuel aug i current_state symbol st =
     then_do (goto cfuel aug current_state symbol)
       (\<lambda>goto_result.
          if goto_result \<noteq> [] \<and> \<not> list_ex (\<lambda>s. same_set s goto_result) (fst st) then
            Returns (fst st @ [goto_result], AList.update (i, symbol) (length (fst st @ [goto_result]) - 1) (snd st))
          else if goto_result \<noteq> [] then
            (case state_index (fst st) goto_result of
               None \<Rightarrow> Raises ValueError
             | Some j \<Rightarrow> Returns (fst st, AList.update (i, symbol) j (snd st)))
          else Returns st)"

fun canonical_loop ::
  "nat \<Rightarrow> nat \<Rightarrow> Grammar \<Rightarrow> string list \<Rightarrow> item pyset list \<times> transitions \<Rightarrow> nat
     \<Rightarrow> (item pyset list \<times> transitions) outcome"
where
  "canonical_loop fuel cfuel aug symbols st i =
     (if \<not> i < length (fst st) then Returns st
      else case fuel of
             0 \<Rightarrow> OutOfFuel
           | Suc fuel' \<Rightarrow>
               then_do (for_each (canonical_symbol cfuel aug i (fst st ! i)) symbols st)
                 (\<lambda>st'. canonical_loop fuel' cfuel aug symbols st' (i + 1)))"

text \<open>
  \<^verbatim>\<open>symbols\<close> is the union of two sets, and the loop iterates over it in an order
  that Python does not specify: the order is an argument of the model.
\<close>

definition build_canonical_collection ::
  "nat \<Rightarrow> Grammar \<Rightarrow> Grammar \<Rightarrow> string list \<Rightarrow> (item pyset list \<times> transitions) outcome"
where
  "build_canonical_collection fuel g aug symbols =
     then_do (closure fuel aug [(S_prime, start_symbol g, 0)])
       (\<lambda>initial_items. canonical_loop fuel fuel aug symbols ([initial_items], []) 0)"

text \<open>\<^verbatim>\<open>str\<close> of a natural number and \<^verbatim>\<open>int\<close> of a string of decimal digits.\<close>

definition digit_chars :: string where
  "digit_chars = ''0123456789''"

fun str_of_nat :: "nat \<Rightarrow> string" where
  "str_of_nat n = (if n < 10 then [digit_chars ! n] else str_of_nat (n div 10) @ [digit_chars ! (n mod 10)])"

definition digit_value :: "char \<Rightarrow> nat option" where
  "digit_value c = map_of (zip digit_chars [0 ..< 10]) c"

fun int_of_digits :: "string \<Rightarrow> nat \<Rightarrow> nat outcome" where
  "int_of_digits [] acc = Returns acc"
| "int_of_digits (c # cs) acc =
     (case digit_value c of None \<Rightarrow> Raises ValueError | Some d \<Rightarrow> int_of_digits cs (10 * acc + d))"

text \<open>
  \<^verbatim>\<open>int(s)\<close> for the strings that \<^verbatim>\<open>str\<close> yields on the state numbers, the only
  ones the tables hold after an \<open>s\<close>; any other string is a \<^verbatim>\<open>ValueError\<close> here.
\<close>

definition py_int :: "string \<Rightarrow> nat outcome" where
  "py_int s = (if s = [] then Raises ValueError else int_of_digits s 0)"

text \<open>
  One write into the ACTION table, as both cases of \<^verbatim>\<open>_build_parsing_tables\<close> do it:
  a cell that holds something else than the action becomes \<^verbatim>\<open>None\<close>.
\<close>

definition write_action :: "nat \<Rightarrow> string \<Rightarrow> string \<Rightarrow> action_table \<Rightarrow> action_table outcome" where
  "write_action state_idx key action tbl =
     (case map_of tbl state_idx of
        None \<Rightarrow> Raises KeyError
      | Some row \<Rightarrow>
          Returns (AList.update state_idx
                     (AList.update key
                        (if map_of row key \<noteq> None \<and> map_of row key \<noteq> Some (Some action) then None
                         else Some action) row)
                     tbl))"

definition reduce_action :: "Grammar \<Rightarrow> string \<Rightarrow> string \<Rightarrow> string" where
  "reduce_action g non_terminal production =
     (if non_terminal = S_prime \<and> production = start_symbol g then ''acc''
      else ''r'' @ non_terminal @ ''->'' @ production)"

definition action_item ::
  "Grammar \<Rightarrow> (string, string pyset) dict \<Rightarrow> transitions \<Rightarrow> nat \<Rightarrow> item \<Rightarrow> action_table \<Rightarrow> action_table outcome"
where
  "action_item g fw trs state_idx it tbl =
     (case it of (non_terminal, production, dot_pos) \<Rightarrow>
        if dot_pos < length production \<and> production \<noteq> ''e'' then
          (if \<not> isupper [production ! dot_pos] \<and> map_of trs (state_idx, [production ! dot_pos]) \<noteq> None then
             (case map_of trs (state_idx, [production ! dot_pos]) of
                None \<Rightarrow> Raises KeyError
              | Some next_state \<Rightarrow>
                  write_action state_idx [production ! dot_pos] (''s'' @ str_of_nat next_state) tbl)
           else Returns tbl)
        else if (dot_pos \<ge> length production \<and> production \<noteq> ''e'') \<or> (production = ''e'' \<and> dot_pos = 0) then
          (case map_of fw non_terminal of
             None \<Rightarrow> Raises KeyError
           | Some follow_nt \<Rightarrow>
               for_each (\<lambda>terminal. write_action state_idx terminal (reduce_action g non_terminal production))
                 follow_nt tbl)
        else Returns tbl)"

definition goto_entry :: "Grammar \<Rightarrow> (nat \<times> string) \<times> nat \<Rightarrow> goto_table \<Rightarrow> goto_table outcome" where
  "goto_entry aug entry tbl =
     (case entry of ((state, symbol), next_state) \<Rightarrow>
        if symbol \<in> set (non_terminals aug) then
          (case map_of tbl state of
             None \<Rightarrow> Raises KeyError
           | Some row \<Rightarrow> Returns (AList.update state (AList.update symbol next_state row) tbl))
        else Returns tbl)"

definition build_parsing_tables ::
  "Grammar \<Rightarrow> Grammar \<Rightarrow> (string, string pyset) dict \<Rightarrow> item pyset list \<times> transitions
     \<Rightarrow> (action_table \<times> goto_table) outcome"
where
  "build_parsing_tables g aug fw cc =
     (case cc of (states, trs) \<Rightarrow>
        then_do (for_each (goto_entry aug) trs (fold (\<lambda>i. AList.update i []) [0 ..< length states] []))
          (\<lambda>goto_tbl.
             then_do (for_each (\<lambda>(state_idx, state). for_each (action_item g fw trs state_idx) state)
                        (zip [0 ..< length states] states)
                        (fold (\<lambda>i. AList.update i []) [0 ..< length states] []))
               (\<lambda>action_tbl. Returns (action_tbl, goto_tbl))))"

definition check_if_slr1 :: "action_table \<Rightarrow> bool" where
  "check_if_slr1 tbl =
     list_all (\<lambda>(state, actions). list_all (\<lambda>(terminal, action). action \<noteq> None) actions) tbl"

definition symbols_union :: "Grammar \<Rightarrow> string list" where
  "symbols_union aug = set_update (non_terminals aug) (terminals aug)"

definition SLR1Parser_init :: "nat \<Rightarrow> Grammar \<Rightarrow> SLR1Parser outcome" where
  "SLR1Parser_init fuel g =
     then_do (get_first_set fuel (augment_grammar g)) (\<lambda>fs.
     then_do (get_follow_set fuel (augment_grammar g) fs) (\<lambda>fw.
     then_do (build_canonical_collection fuel g (augment_grammar g) (symbols_union (augment_grammar g))) (\<lambda>cc.
     then_do (build_parsing_tables g (augment_grammar g) fw cc) (\<lambda>(action_tbl, goto_tbl).
     Returns \<lparr>slr_grammar = g, augmented_grammar = augment_grammar g, slr_first_sets = fs,
              slr_follow_sets = fw, canonical_collection = cc, action_table = action_tbl,
              goto_table = goto_tbl, is_slr1 = check_if_slr1 action_tbl\<rparr>))))"

text \<open>
  The stack of the shift-reduce machine holds state numbers and symbols; its head is the
  top. \<^verbatim>\<open>str.split('->')\<close> cuts a string at every \<^verbatim>\<open>->\<close>.
\<close>

datatype stack_entry = State nat | Symbol string

fun split_arrow :: "string \<Rightarrow> string \<Rightarrow> string list" where
  "split_arrow cur [] = [cur]"
| "split_arrow cur [c] = [cur @ [c]]"
| "split_arrow cur (c # d # rest) =
     (if c = CHR ''-'' \<and> d = CHR ''>'' then cur # split_arrow [] rest
      else split_arrow (cur @ [c]) (d # rest))"

fun pop_n :: "nat \<Rightarrow> stack_entry list \<Rightarrow> stack_entry list outcome" where
  "pop_n 0 stack = Returns stack"
| "pop_n (Suc n) [] = Raises IndexError"
| "pop_n (Suc n) (x # stack) = pop_n n stack"

fun slr1_loop ::
  "nat \<Rightarrow> action_table \<Rightarrow> goto_table \<Rightarrow> string \<Rightarrow> stack_entry list \<Rightarrow> nat \<Rightarrow> bool outcome"
where
  "slr1_loop 0 atbl gtbl input_string stack input_ptr = OutOfFuel"
| "slr1_loop (Suc fuel) atbl gtbl input_string stack input_ptr =
     (case stack of
        [] \<Rightarrow> Raises IndexError
      | Symbol x # below \<Rightarrow> Raises KeyError
      | State current_state # below \<Rightarrow>
          (case map_of atbl current_state of
             None \<Rightarrow> Raises KeyError
           | Some row \<Rightarrow>
               (case map_of row (if input_ptr < length input_string then [input_string ! input_ptr] else ''$'') of
                  None \<Rightarrow> Returns False
                | Some None \<Rightarrow> Returns False
                | Some (Some action) \<Rightarrow>
                    if take 1 action = ''s'' then
                      then_do (py_int (drop 1 action))
                        (\<lambda>next_state.
                           slr1_loop fuel atbl gtbl input_string
                             (State next_state
                              # Symbol (if input_ptr < length input_string then [input_string ! input_ptr] else ''$'')
                              # stack)
                             (input_ptr + 1))
                    else if take 1 action = ''r'' then
                      (case split_arrow [] (drop 1 action) of
                         non_terminal # production # others \<Rightarrow>
                           then_do (if production \<noteq> ''e'' then pop_n (2 * length production) stack
                                    else Returns stack)
                             (\<lambda>stack'.
                                case stack' of
                                  [] \<Rightarrow> Raises IndexError
                                | Symbol x # below' \<Rightarrow> Raises KeyError
                                | State top_state # below' \<Rightarrow>
                                    (case map_of gtbl top_state of
                                       None \<Rightarrow> Raises KeyError
                                     | Some grow \<Rightarrow>
                                         (case map_of grow non_terminal of
                                            None \<Rightarrow> Returns False
                                          | Some next_state \<Rightarrow>
                                              slr1_loop fuel atbl gtbl input_string
                                                (State next_state # Symbol non_terminal # stack') input_ptr)))
                       | _ \<Rightarrow> Raises IndexError)
                    else if action = ''acc'' then Returns True
                    else Returns False)))"

definition SLR1Parser_parse :: "nat \<Rightarrow> SLR1Parser \<Rightarrow> string \<Rightarrow> bool outcome" where
  "SLR1Parser_parse fuel P input_string =
     (if \<not> is_slr1 P then Returns False
      else slr1_loop fuel (action_table P) (goto_table P) (with_end_marker input_string) [State 0] 0)"

section \<open>Specification predicates\<close>

text \<open>
  A dictionary of sets has grown into another one when every key of the first is a key
  of the second and holds at least the same elements there.
\<close>

definition grows :: "(string, string pyset) dict \<Rightarrow> (string, string pyset) dict \<Rightarrow> bool" where
  "grows d d' =
     list_all (\<lambda>k. case map_of d k of
                      None \<Rightarrow> True
                    | Some s \<Rightarrow> (case map_of d' k of None \<Rightarrow> False | Some s' \<Rightarrow> list_all (\<lambda>t. t \<in> set s') s))
       (map fst d)"

text \<open>
  Reading the cell \<open>(A, t)\<close> of an LL(1) table: \<open>None\<close> when the cell was never written,
  \<open>Some None\<close> when it holds the conflict mark, \<open>Some (Some p)\<close> when it holds \<open>p\<close>.
\<close>

definition ll1_cell :: "ll1_table \<Rightarrow> string \<Rightarrow> string \<Rightarrow> string option option" where
  "ll1_cell tbl A t = (case map_of tbl A of None \<Rightarrow> None | Some row \<Rightarrow> map_of row t)"

text \<open>
  The terminals \<open>t\<close> for which \<^verbatim>\<open>_build_parse_table\<close> writes the production \<open>p\<close> of
  \<open>A\<close> into the cell \<open>(A, t)\<close>: those of FIRST(p) and, if \<open>e\<close> is in FIRST(p), those of
  FOLLOW(A).
\<close>

definition written_cells ::
  "(string, string pyset) dict \<Rightarrow> (string, string pyset) dict \<Rightarrow> string \<Rightarrow> string \<Rightarrow> string list"
where
  "written_cells fs fw A p =
     filter (\<lambda>t. t \<noteq> ''e'') (get_first_of_string fs p)
     @ (if ''e'' \<in> set (get_first_of_string fs p)
        then (case map_of fw A of None \<Rightarrow> [] | Some follow_nt \<Rightarrow> follow_nt) else [])"

text \<open>Reading the cell \<open>(i, t)\<close> of an ACTION table, as for the LL(1) table.\<close>

definition slr_cell :: "action_table \<Rightarrow> nat \<Rightarrow> string \<Rightarrow> string option option" where
  "slr_cell tbl i t = (case map_of tbl i of None \<Rightarrow> None | Some row \<Rightarrow> map_of row t)"

text \<open>
  The actions that an item of state \<open>i\<close> asks for, as pairs of a terminal and an
  action: a shift for the terminal after the dot when the automaton has a transition
  on it, a reduction (or the acceptance) for every terminal of FOLLOW when the dot is
  at the end. \<open>table_actions\<close> lists them for all items of all states, in the order in
  which \<^verbatim>\<open>_build_parsing_tables\<close> meets them, each with its state.
\<close>

definition item_actions ::
  "Grammar \<Rightarrow> (string, string pyset) dict \<Rightarrow> transitions \<Rightarrow> nat \<Rightarrow> item \<Rightarrow> (string \<times> string) list"
where
  "item_actions g fw trs state_idx it =
     (case it of (non_terminal, production, dot_pos) \<Rightarrow>
        if dot_pos < length production \<and> production \<noteq> ''e'' then
          (if isupper [production ! dot_pos] then []
           else case map_of trs (state_idx, [production ! dot_pos]) of
                  None \<Rightarrow> []
                | Some next_state \<Rightarrow> [([production ! dot_pos], ''s'' @ str_of_nat next_state)])
        else if (dot_pos \<ge> length production \<and> production \<noteq> ''e'') \<or> (production = ''e'' \<and> dot_pos = 0) then
          (case map_of fw non_terminal of
             None \<Rightarrow> []
           | Some follow_nt \<Rightarrow> map (\<lambda>terminal. (terminal, reduce_action g non_terminal production)) follow_nt)
        else [])"

definition table_actions ::
  "Grammar \<Rightarrow> (string, string pyset) dict \<Rightarrow> transitions \<Rightarrow> item pyset list \<Rightarrow> (nat \<times> string \<times> string) list"
where
  "table_actions g fw trs states =
     concat (map (\<lambda>(state_idx, state).
                    concat (map (\<lambda>it. map (Pair state_idx) (item_actions g fw trs state_idx it)) state))
               (zip [0 ..< length states] states))"
text \<open>What a cell holds after a sequence of writes.\<close>

fun cell_after :: "string option option \<Rightarrow> string list \<Rightarrow> string option option" where
  "cell_after c [] = c"
| "cell_after c (a # as) = cell_after (Some (if c \<noteq> None \<and> c \<noteq> Some (Some a) then None else Some a)) as"

definition actions_for :: "nat \<Rightarrow> string \<Rightarrow> (nat \<times> string \<times> string) list \<Rightarrow> string list" where
  "actions_for i t ws = map (\<lambda>w. snd (snd w)) (filter (\<lambda>w. fst w = i \<and> fst (snd w) = t) ws)"

text \<open>An association list of association lists in which no key occurs twice.\<close>

definition distinct_table :: "('a \<times> ('b \<times> 'c) list) list \<Rightarrow> bool" where
  "distinct_table tbl =
     (distinct (map fst tbl) \<and> (\<forall>i row. map_of tbl i = Some row \<longrightarrow> distinct (map fst row)))"

text \<open>
  The items with the dot at the start that a closure can add: one for every production
  of the grammar.
\<close>

definition initial_items_of :: "Grammar \<Rightarrow> item set" where
  "initial_items_of aug = (\<Union>r \<in> set (productions aug). (\<lambda>p. (fst r, p, 0)) ` set (snd r))"

text \<open>The items that advance the dot of an item of a set.\<close>

definition advanced_items :: "item set \<Rightarrow> item set" where
  "advanced_items S = (\<lambda>it. (fst it, fst (snd it), Suc (snd (snd it)))) ` {it \<in> S. snd (snd it) < length (fst (snd it))}"

text \<open>
  All items of a grammar and of a set of seed items: the seeds and the initial items,
  with the dot at any later place of the production as well.
\<close>

definition item_universe :: "Grammar \<Rightarrow> item set \<Rightarrow> item set" where
  "item_universe aug seeds =
     (\<Union>it \<in> initial_items_of aug \<union> seeds. (\<lambda>d. (fst it, fst (snd it), d)) ` {snd (snd it) .. max (snd (snd it)) (length (fst (snd it)))})"
text \<open>The invariant of the construction of the canonical collection.\<close>

definition collection_ok ::
  "nat \<Rightarrow> Grammar \<Rightarrow> string list \<Rightarrow> item set \<Rightarrow> item pyset list \<times> transitions \<Rightarrow> bool"
where
  "collection_ok cfuel aug symbols U st =
     (distinct (map set (fst st)) \<and> [] \<notin> set (fst st) \<and> (\<forall>s \<in> set (fst st). set s \<subseteq> U)
      \<and> (\<forall>i X j. map_of (snd st) (i, X) = Some j \<longrightarrow>
            i < length (fst st) \<and> j < length (fst st) \<and> X \<in> set symbols
            \<and> (\<exists>r. goto cfuel aug (fst st ! i) X = Returns r \<and> r \<noteq> [] \<and> set (fst st ! j) = set r)))"

section \<open>Auxiliary lemmas\<close>

lemma then_do_Returns:
  "then_do m f = Returns y \<longleftrightarrow> (\<exists>x. m = Returns x \<and> f x = Returns y)"
  by (cases m) auto

lemma for_each_append:
  "for_each f (xs @ ys) s = then_do (for_each f xs s) (for_each f ys)"
proof (induction xs arbitrary: s)
  case Nil
  show ?case by simp
next
  case (Cons x xs)
  show ?case by (cases "f x s") (simp_all add: Cons.IH)
qed

lemma for_each_invariant:
  assumes "for_each f xs s = Returns s'" and "I s"
    and "\<And>x a b. x \<in> set xs \<Longrightarrow> I a \<Longrightarrow> f x a = Returns b \<Longrightarrow> I b"
  shows "I s'"
  using assms
proof (induction xs arbitrary: s)
  case Nil
  then show ?case by simp
next
  case (Cons x xs)
  from Cons.prems(1) obtain m where m: "f x s = Returns m" and r: "for_each f xs m = Returns s'"
    by (auto simp: then_do_Returns)
  have "I m" using Cons.prems(2,3) m by auto
  with r Cons.IH Cons.prems(3) show ?case by auto
qed

lemma set_set_add [simp]: "set (set_add x xs) = insert x (set xs)"
  by (auto simp: set_add_def)

lemma set_set_update [simp]: "set (set_update ys xs) = set ys \<union> set xs"
  unfolding set_update_def by (induction ys arbitrary: xs) auto

lemma grows_iff:
  "grows d d' \<longleftrightarrow> (\<forall>k s. map_of d k = Some s \<longrightarrow> (\<exists>s'. map_of d' k = Some s' \<and> set s \<subseteq> set s'))"
proof
  assume g: "grows d d'"
  show "\<forall>k s. map_of d k = Some s \<longrightarrow> (\<exists>s'. map_of d' k = Some s' \<and> set s \<subseteq> set s')"
  proof (intro allI impI)
    fix k s assume ks: "map_of d k = Some s"
    then have "k \<in> set (map fst d)" by (metis map_of_eq_None_iff option.distinct(1) set_map)
    with g ks show "\<exists>s'. map_of d' k = Some s' \<and> set s \<subseteq> set s'"
      by (fastforce simp: grows_def list_all_iff split: option.splits)
  qed
next
  assume "\<forall>k s. map_of d k = Some s \<longrightarrow> (\<exists>s'. map_of d' k = Some s' \<and> set s \<subseteq> set s')"
  then show "grows d d'"
    by (fastforce simp: grows_def list_all_iff split: option.splits)
qed

lemma grows_refl: "grows d d"
  by (simp add: grows_iff)

lemma grows_trans: "grows a b \<Longrightarrow> grows b c \<Longrightarrow> grows a c"
  unfolding grows_iff by (meson subset_trans)

lemma add_all_grows:
  assumes "add_all k ts st = Returns st'"
  shows "grows (fst st) (fst st')"
  using assms
  by (auto simp: add_all_def grows_iff update_conv' split: if_splits option.splits)

lemma copy_follow_grows:
  assumes "copy_follow A B st = Returns st'"
  shows "grows (fst st) (fst st')"
  using assms by (auto simp: copy_follow_def split: option.splits dest: add_all_grows)

lemma follow_walk_grows:
  "follow_walk fs A syms st = Returns st' \<Longrightarrow> grows (fst st) (fst st')"
proof (induction syms arbitrary: st)
  case Nil
  then show ?case by (simp add: grows_refl)
next
  case (Cons symbol rest)
  show ?case
  proof (cases "isupper symbol")
    case False
    with Cons show ?thesis by simp
  next
    case up: True
    show ?thesis
    proof (cases "rest = []")
      case True
      with up Cons.prems obtain m where "copy_follow A symbol st = Returns m"
        and "follow_walk fs A rest m = Returns st'"
        by (auto simp: then_do_Returns)
      then show ?thesis using Cons.IH copy_follow_grows grows_trans by blast
    next
      case False
      obtain fr eps where rf: "rest_first fs rest [] = (fr, eps)" by (cases "rest_first fs rest []")
      with up False Cons.prems obtain m1 m2 where
        a: "add_all symbol fr st = Returns m1" and
        b: "(if eps then copy_follow A symbol m1 else Returns m1) = Returns m2" and
        c: "follow_walk fs A rest m2 = Returns st'"
        by (auto simp: then_do_Returns)
      have "grows (fst m1) (fst m2)" using b by (auto split: if_splits dest: copy_follow_grows simp: grows_refl)
      then show ?thesis using a c Cons.IH add_all_grows grows_trans by blast
    qed
  qed
qed

lemma follow_production_grows:
  "follow_production fs A p st = Returns st' \<Longrightarrow> grows (fst st) (fst st')"
  by (auto simp: follow_production_def grows_refl split: if_splits dest: follow_walk_grows)

lemma follow_pass_grows:
  assumes "follow_pass g fs st = Returns st'"
  shows "grows (fst st) (fst st')"
proof -
  have inner: "for_each (follow_production fs A) ps a = Returns b \<Longrightarrow> grows (fst st) (fst a)
      \<Longrightarrow> grows (fst st) (fst b)" for A ps a b
    by (rule for_each_invariant [where I = "\<lambda>x. grows (fst st) (fst x)"])
       (auto dest: follow_production_grows grows_trans)
  show ?thesis
    using assms unfolding follow_pass_def
    by (rule for_each_invariant [where I = "\<lambda>x. grows (fst st) (fst x)"])
       (auto simp: grows_refl dest: inner)
qed

lemma follow_loop_grows:
  "follow_loop fuel g fs fw = Returns fw' \<Longrightarrow> grows fw fw'"
proof (induction fuel arbitrary: fw)
  case 0
  then show ?case by simp
next
  case (Suc fuel)
  from Suc.prems obtain m u where p: "follow_pass g fs (fw, False) = Returns (m, u)"
    and r: "(if u then follow_loop fuel g fs m else Returns m) = Returns fw'"
    by (auto simp: then_do_Returns)
  have "grows fw m" using follow_pass_grows [OF p] by simp
  moreover have "grows m fw'" using r Suc.IH by (auto split: if_splits simp: grows_refl)
  ultimately show ?case by (rule grows_trans)
qed

lemma classify_productions [simp]: "productions (classify syms g) = productions g"
  by (induction syms arbitrary: g) auto

lemma classify_start_symbol [simp]: "start_symbol (classify syms g) = start_symbol g"
  by (induction syms arbitrary: g) auto

lemma classify_non_terminals_mono: "set (non_terminals g) \<subseteq> set (non_terminals (classify syms g))"
proof (induction syms arbitrary: g)
  case Nil
  show ?case by simp
next
  case (Cons a syms)
  show ?case using Cons.IH [of "g\<lparr>non_terminals := set_add a (non_terminals g)\<rparr>"]
      Cons.IH [of "g\<lparr>terminals := set_add a (terminals g)\<rparr>"] Cons.IH [of g]
    by auto
qed

lemma add_each_productions:
  "productions (add_each A ps g) = fold (\<lambda>p. AList.map_entry A (\<lambda>x. x @ [p])) ps (productions g)"
  by (induction ps arbitrary: g) auto

lemma add_each_start_symbol [simp]: "start_symbol (add_each A ps g) = start_symbol g"
  by (induction ps arbitrary: g) auto

lemma add_each_non_terminals_mono: "set (non_terminals g) \<subseteq> set (non_terminals (add_each A ps g))"
proof (induction ps arbitrary: g)
  case Nil
  show ?case by simp
next
  case (Cons p ps)
  have "set (non_terminals g)
      \<subseteq> set (non_terminals (classify (symbols_of p)
            (g\<lparr>productions := AList.map_entry A (\<lambda>ps. ps @ [p]) (productions g)\<rparr>)))"
    using classify_non_terminals_mono
      [of "g\<lparr>productions := AList.map_entry A (\<lambda>ps. ps @ [p]) (productions g)\<rparr>" "symbols_of p"]
    by simp
  then show ?case using Cons.IH by fastforce
qed

lemma add_production_start_symbol [simp]: "start_symbol (add_production A ps g) = start_symbol g"
  by (simp add: add_production_def)

lemma update_fresh_key: "k \<notin> fst ` set al \<Longrightarrow> AList.update k v al = al @ [(k, v)]"
  by (induction al) auto

lemma map_entry_last: "k \<notin> fst ` set al \<Longrightarrow> AList.map_entry k f (al @ [(k, v)]) = al @ [(k, f v)]"
  by (induction al) auto

lemma map_of_None_keys: "map_of al k = None \<longleftrightarrow> k \<notin> fst ` set al"
  by (simp add: map_of_eq_None_iff)

lemma add_production_one_productions:
  "productions (add_production A [p] g) =
     (if map_of (productions g) A = None then productions g @ [(A, [p])]
      else AList.map_entry A (\<lambda>x. x @ [p]) (productions g))"
  by (auto simp: add_production_def map_of_None_keys update_fresh_key map_entry_last)

lemma copy_alternatives_last:
  assumes "A \<notin> fst ` set al" and "productions aug = al @ [(A, ps0)]"
  shows "productions (fold (\<lambda>p. add_production A [p]) ps aug) = al @ [(A, ps0 @ ps)]"
  using assms
proof (induction ps arbitrary: aug ps0)
  case Nil
  then show ?case by simp
next
  case (Cons p ps)
  have "productions (add_production A [p] aug) = al @ [(A, ps0 @ [p])]"
    using Cons.prems by (simp add: add_production_one_productions map_entry_last)
  from Cons.IH [OF Cons.prems(1) this] show ?case by simp
qed

lemma copy_alternatives:
  assumes "A \<notin> fst ` set (productions aug)"
  shows "productions (fold (\<lambda>p. add_production A [p]) ps aug)
           = productions aug @ (if ps = [] then [] else [(A, ps)])"
proof (cases ps)
  case Nil
  then show ?thesis by simp
next
  case (Cons p rest)
  have "productions (add_production A [p] aug) = productions aug @ [(A, [p])]"
    using assms by (simp add: add_production_one_productions map_of_None_keys)
  from copy_alternatives_last [OF assms this, of rest] Cons show ?thesis by simp
qed

lemma copy_rules:
  assumes "distinct (map fst rules)" and "fst ` set rules \<inter> fst ` set (productions aug) = {}"
  shows "productions (fold (\<lambda>(A, ps) aug. fold (\<lambda>p. add_production A [p]) ps aug) rules aug)
           = productions aug @ filter (\<lambda>(A, ps). ps \<noteq> []) rules"
  using assms
proof (induction rules arbitrary: aug)
  case Nil
  then show ?case by simp
next
  case (Cons r rules)
  obtain A ps where r: "r = (A, ps)" by (cases r)
  let ?aug = "fold (\<lambda>p. add_production A [p]) ps aug"
  have fresh: "A \<notin> fst ` set (productions aug)" using Cons.prems(2) r by auto
  have step: "productions ?aug = productions aug @ (if ps = [] then [] else [(A, ps)])"
    by (rule copy_alternatives [OF fresh])
  have "distinct (map fst rules)" using Cons.prems(1) by simp
  moreover have "fst ` set rules \<inter> fst ` set (productions ?aug) = {}"
    using Cons.prems r step by (auto split: if_splits)
  ultimately have "productions (fold (\<lambda>(A, ps) aug. fold (\<lambda>p. add_production A [p]) ps aug) rules ?aug)
      = productions ?aug @ filter (\<lambda>(A, ps). ps \<noteq> []) rules"
    by (rule Cons.IH)
  then show ?case using r step by simp
qed

lemma add_production_non_terminals_mono:
  "set (non_terminals g) \<subseteq> set (non_terminals (add_production A ps g))"
  using add_each_non_terminals_mono
    [of "g\<lparr>productions := AList.update A [] (productions g), non_terminals := set_add A (non_terminals g)\<rparr>" A ps]
    add_each_non_terminals_mono [of g A ps]
  by (auto simp: add_production_def)

lemma add_production_new_key:
  assumes "map_of (productions g) A = None"
  shows "A \<in> set (non_terminals (add_production A ps g))"
  using add_each_non_terminals_mono
    [of "g\<lparr>productions := AList.update A [] (productions g), non_terminals := set_add A (non_terminals g)\<rparr>" A ps]
    assms
  by (auto simp: add_production_def)

lemma write_cell_cell:
  assumes "write_cell A p t tbl = Returns tbl'"
  shows "ll1_cell tbl' B u =
           (if B = A \<and> u = t then Some (if ll1_cell tbl A t \<noteq> None then None else Some p)
            else ll1_cell tbl B u)"
proof -
  from assms obtain row where row: "map_of tbl A = Some row"
    and tbl': "tbl' = AList.update A (AList.update t (if map_of row t \<noteq> None then None else Some p) row) tbl"
    by (auto simp: write_cell_def split: option.splits)
  show ?thesis
    unfolding tbl' ll1_cell_def using row by (simp add: update_conv')
qed

lemma write_cell_keeps_conflict:
  "write_cell A p t tbl = Returns tbl' \<Longrightarrow> ll1_cell tbl B u = Some None \<Longrightarrow> ll1_cell tbl' B u = Some None"
  by (auto simp: write_cell_cell)

lemma write_cell_keeps_occupied:
  "write_cell A p t tbl = Returns tbl' \<Longrightarrow> ll1_cell tbl B u \<noteq> None \<Longrightarrow> ll1_cell tbl' B u \<noteq> None"
  by (auto simp: write_cell_cell)

lemma writes_keep_conflict:
  assumes "for_each (write_cell A p) ts tbl = Returns tbl'" and "ll1_cell tbl B u = Some None"
  shows "ll1_cell tbl' B u = Some None"
  using assms(1)
  by (rule for_each_invariant [where I = "\<lambda>x. ll1_cell x B u = Some None"])
     (auto simp: assms(2) dest: write_cell_keeps_conflict)

lemma writes_keep_occupied:
  assumes "for_each (write_cell A p) ts tbl = Returns tbl'" and "ll1_cell tbl B u \<noteq> None"
  shows "ll1_cell tbl' B u \<noteq> None"
  using assms(1)
  by (rule for_each_invariant [where I = "\<lambda>x. ll1_cell x B u \<noteq> None"])
     (use assms(2) write_cell_keeps_occupied in blast)+

lemma writes_occupy:
  "for_each (write_cell A p) ts tbl = Returns tbl' \<Longrightarrow> t \<in> set ts \<Longrightarrow> ll1_cell tbl' A t \<noteq> None"
proof (induction ts arbitrary: tbl)
  case Nil
  then show ?case by simp
next
  case (Cons x xs)
  from Cons.prems(1) obtain m where m: "write_cell A p x tbl = Returns m"
    and r: "for_each (write_cell A p) xs m = Returns tbl'"
    by (auto simp: then_do_Returns)
  show ?case
  proof (cases "t = x")
    case True
    have "ll1_cell m A t \<noteq> None" using m True by (simp add: write_cell_cell)
    with r show ?thesis by (rule writes_keep_occupied)
  next
    case False
    with Cons.prems(2) have "t \<in> set xs" by simp
    with r Cons.IH show ?thesis by blast
  qed
qed

lemma writes_on_occupied:
  "for_each (write_cell A p) ts tbl = Returns tbl' \<Longrightarrow> t \<in> set ts \<Longrightarrow> ll1_cell tbl A t \<noteq> None
     \<Longrightarrow> ll1_cell tbl' A t = Some None"
proof (induction ts arbitrary: tbl)
  case Nil
  then show ?case by simp
next
  case (Cons x xs)
  from Cons.prems(1) obtain m where m: "write_cell A p x tbl = Returns m"
    and r: "for_each (write_cell A p) xs m = Returns tbl'"
    by (auto simp: then_do_Returns)
  show ?case
  proof (cases "t = x")
    case True
    have "ll1_cell m A t = Some None" using m True Cons.prems(3) by (simp add: write_cell_cell)
    with r show ?thesis by (rule writes_keep_conflict)
  next
    case False
    with Cons.prems(2) have "t \<in> set xs" by simp
    moreover have "ll1_cell m A t \<noteq> None" using m Cons.prems(3) by (rule write_cell_keeps_occupied)
    ultimately show ?thesis using r Cons.IH by blast
  qed
qed

lemma table_production_writes:
  assumes "table_production fs fw A p tbl = Returns tbl'"
  shows "for_each (write_cell A p) (written_cells fs fw A p) tbl = Returns tbl'"
  using assms
  by (auto simp: table_production_def written_cells_def for_each_append then_do_Returns Let_def
           split: if_splits option.splits)

lemma table_production_keeps_conflict:
  "table_production fs fw A p tbl = Returns tbl' \<Longrightarrow> ll1_cell tbl B u = Some None
     \<Longrightarrow> ll1_cell tbl' B u = Some None"
  by (blast dest: table_production_writes writes_keep_conflict)

lemma table_production_keeps_occupied:
  "table_production fs fw A p tbl = Returns tbl' \<Longrightarrow> ll1_cell tbl B u \<noteq> None
     \<Longrightarrow> ll1_cell tbl' B u \<noteq> None"
  by (blast dest: table_production_writes writes_keep_occupied)

lemma table_productions_keep_conflict:
  assumes "for_each (table_production fs fw A) ps tbl = Returns tbl'" and "ll1_cell tbl B u = Some None"
  shows "ll1_cell tbl' B u = Some None"
  using assms(1)
  by (rule for_each_invariant [where I = "\<lambda>x. ll1_cell x B u = Some None"])
     (use assms(2) table_production_keeps_conflict in blast)+

lemma table_productions_keep_occupied:
  assumes "for_each (table_production fs fw A) ps tbl = Returns tbl'" and "ll1_cell tbl B u \<noteq> None"
  shows "ll1_cell tbl' B u \<noteq> None"
  using assms(1)
  by (rule for_each_invariant [where I = "\<lambda>x. ll1_cell x B u \<noteq> None"])
     (use assms(2) table_production_keeps_occupied in blast)+

lemma table_rules_keep_conflict:
  assumes "for_each (\<lambda>(A, ps). for_each (table_production fs fw A) ps) rules tbl = Returns tbl'"
    and "ll1_cell tbl B u = Some None"
  shows "ll1_cell tbl' B u = Some None"
  using assms(1)
  by (rule for_each_invariant [where I = "\<lambda>x. ll1_cell x B u = Some None"])
     (use assms(2) table_productions_keep_conflict in \<open>auto split: prod.splits\<close>)

lemma duplicate_alternative_conflict:
  assumes run: "for_each (table_production fs fw A) prods tbl = Returns tbl'"
    and ij: "i < j" "j < length prods" "prods ! i = prods ! j"
    and t: "t \<in> set (written_cells fs fw A (prods ! i))"
  shows "ll1_cell tbl' A t = Some None"
proof -
  let ?p = "prods ! i"
  have split1: "prods = take j prods @ ?p # drop (Suc j) prods"
    using ij by (metis id_take_nth_drop)
  have i_in: "?p \<in> set (take j prods)"
    using ij by (metis in_set_conv_nth length_take min.absorb2 less_imp_le nth_take)
  then obtain xs ys where tk: "take j prods = xs @ ?p # ys" by (meson split_list)
  have "prods = xs @ ?p # ys @ ?p # drop (Suc j) prods"
    using split1 tk by simp
  then have "for_each (table_production fs fw A) (xs @ ?p # ys @ ?p # drop (Suc j) prods) tbl = Returns tbl'"
    using run by simp
  then obtain m1 m2 m3 m4 where
    a: "for_each (table_production fs fw A) xs tbl = Returns m1" and
    b: "table_production fs fw A ?p m1 = Returns m2" and
    c: "for_each (table_production fs fw A) ys m2 = Returns m3" and
    d: "table_production fs fw A ?p m3 = Returns m4" and
    e: "for_each (table_production fs fw A) (drop (Suc j) prods) m4 = Returns tbl'"
    by (auto simp: for_each_append then_do_Returns)
  have "ll1_cell m2 A t \<noteq> None"
    using table_production_writes [OF b] t by (rule writes_occupy)
  then have "ll1_cell m3 A t \<noteq> None"
    using c table_productions_keep_occupied by blast
  then have "ll1_cell m4 A t = Some None"
    using table_production_writes [OF d] t writes_on_occupied by blast
  with e show ?thesis by (rule table_productions_keep_conflict)
qed

lemma conflict_cell_not_ll1:
  assumes "ll1_cell tbl A t = Some None"
  shows "\<not> check_if_ll1 tbl"
proof -
  from assms obtain row where "map_of tbl A = Some row" and "map_of row t = Some None"
    by (auto simp: ll1_cell_def split: option.splits)
  then have "(A, row) \<in> set tbl" and "(t, None) \<in> set row"
    by (auto dest: map_of_SomeD)
  then show ?thesis
    by (fastforce simp: check_if_ll1_def list_all_iff)
qed

lemma for_each_map: "for_each f (map h xs) s = for_each (\<lambda>x. f (h x)) xs s"
proof (induction xs arbitrary: s)
  case Nil
  show ?case by simp
next
  case (Cons x xs)
  show ?case by (cases "f (h x) s") (simp_all add: Cons.IH)
qed

lemma for_each_concat:
  assumes "for_each (\<lambda>x. for_each f (h x)) xs s = Returns s'"
  shows "for_each f (concat (map h xs)) s = Returns s'"
  using assms
proof (induction xs arbitrary: s)
  case Nil
  then show ?case by simp
next
  case (Cons x xs)
  from Cons.prems obtain m where m: "for_each f (h x) s = Returns m"
    and r: "for_each (\<lambda>x. for_each f (h x)) xs m = Returns s'"
    by (auto simp: then_do_Returns)
  from Cons.IH [OF r] m show ?case by (simp add: for_each_append)
qed

lemma for_each_cong_Returns:
  assumes "for_each f xs s = Returns s'"
    and "\<And>x a b. x \<in> set xs \<Longrightarrow> f x a = Returns b \<Longrightarrow> h x a = Returns b"
  shows "for_each h xs s = Returns s'"
  using assms
proof (induction xs arbitrary: s)
  case Nil
  then show ?case by simp
next
  case (Cons x xs)
  from Cons.prems(1) obtain m where m: "f x s = Returns m" and r: "for_each f xs m = Returns s'"
    by (auto simp: then_do_Returns)
  have "h x s = Returns m" using Cons.prems(2) m by simp
  moreover have "for_each h xs m = Returns s'" using Cons.IH [OF r] Cons.prems(2) by simp
  ultimately show ?case by simp
qed

lemma write_action_cell:
  assumes "write_action i t a tbl = Returns tbl'"
  shows "slr_cell tbl' j u =
           (if j = i \<and> u = t
            then Some (if slr_cell tbl i t \<noteq> None \<and> slr_cell tbl i t \<noteq> Some (Some a) then None else Some a)
            else slr_cell tbl j u)"
proof -
  from assms obtain row where row: "map_of tbl i = Some row"
    and tbl': "tbl' = AList.update i
        (AList.update t (if map_of row t \<noteq> None \<and> map_of row t \<noteq> Some (Some a) then None else Some a) row) tbl"
    by (auto simp: write_action_def split: option.splits)
  show ?thesis
    unfolding tbl' slr_cell_def using row by (simp add: update_conv')
qed

lemma write_action_same:
  assumes "map_of tbl i = Some row" and "map_of row t = Some (Some a)"
  shows "write_action i t a tbl = Returns tbl"
  using assms by (simp add: write_action_def update_triv)

lemma cell_after_conflict: "cell_after (Some None) as = Some None"
  by (induction as) auto

lemma cell_after_action:
  "cell_after (Some (Some a)) as = (if \<forall>b \<in> set as. b = a then Some (Some a) else Some None)"
  by (induction as) (auto simp: cell_after_conflict)

lemma cell_after_empty:
  "cell_after None as =
     (case as of [] \<Rightarrow> None | a # rest \<Rightarrow> if \<forall>b \<in> set rest. b = a then Some (Some a) else Some None)"
  by (cases as) (auto simp: cell_after_action)

lemma cell_after_empty_conflict:
  "cell_after None as = Some None \<longleftrightarrow> (\<exists>a \<in> set as. \<exists>b \<in> set as. a \<noteq> b)"
  by (cases as) (auto simp: cell_after_action)

lemma cell_after_empty_action:
  "cell_after None as = Some (Some a) \<longleftrightarrow> (a \<in> set as \<and> (\<forall>b \<in> set as. b = a))"
  by (cases as) (auto simp: cell_after_action)

lemma set_actions_for: "a \<in> set (actions_for i t ws) \<longleftrightarrow> (i, t, a) \<in> set ws"
  by (force simp: actions_for_def)

lemma writes_cell_after:
  "for_each (\<lambda>w. write_action (fst w) (fst (snd w)) (snd (snd w))) ws tbl = Returns tbl'
     \<Longrightarrow> slr_cell tbl' i t = cell_after (slr_cell tbl i t) (actions_for i t ws)"
proof (induction ws arbitrary: tbl)
  case Nil
  then show ?case by (simp add: actions_for_def)
next
  case (Cons w ws)
  from Cons.prems obtain m where m: "write_action (fst w) (fst (snd w)) (snd (snd w)) tbl = Returns m"
    and r: "for_each (\<lambda>w. write_action (fst w) (fst (snd w)) (snd (snd w))) ws m = Returns tbl'"
    by (auto simp: then_do_Returns)
  have "slr_cell tbl' i t = cell_after (slr_cell m i t) (actions_for i t ws)"
    by (rule Cons.IH [OF r])
  then show ?case
    using write_action_cell [OF m, of i t] by (auto simp: actions_for_def)
qed

lemma action_item_writes:
  assumes "action_item g fw trs i it tbl = Returns tbl'"
  shows "for_each (\<lambda>w. write_action (fst w) (fst (snd w)) (snd (snd w)))
           (map (Pair i) (item_actions g fw trs i it)) tbl = Returns tbl'"
proof -
  obtain A p d where it: "it = (A, p, d)" by (cases it)
  consider (shift) "d < length p \<and> p \<noteq> ''e''"
    | (reduce) "\<not> (d < length p \<and> p \<noteq> ''e'')" "(d \<ge> length p \<and> p \<noteq> ''e'') \<or> (p = ''e'' \<and> d = 0)"
    | (neither) "\<not> (d < length p \<and> p \<noteq> ''e'')" "\<not> ((d \<ge> length p \<and> p \<noteq> ''e'') \<or> (p = ''e'' \<and> d = 0))"
    by blast
  then show ?thesis
  proof cases
    case shift
    show ?thesis
    proof (cases "isupper [p ! d]")
      case True
      with shift assms show ?thesis by (simp add: it action_item_def item_actions_def)
    next
      case False
      show ?thesis
      proof (cases "map_of trs (i, [p ! d])")
        case None
        with shift False assms show ?thesis by (simp add: it action_item_def item_actions_def)
      next
        case (Some j)
        with shift False assms show ?thesis
          by (cases "write_action i [p ! d] (''s'' @ str_of_nat j) tbl")
             (simp_all add: it action_item_def item_actions_def)
      qed
    qed
  next
    case reduce
    show ?thesis
    proof (cases "map_of fw A")
      case None
      with assms show ?thesis by (simp add: it action_item_def reduce)
    next
      case (Some f)
      with assms show ?thesis
        by (simp add: it action_item_def item_actions_def reduce for_each_map)
    qed
  next
    case neither
    with assms show ?thesis by (simp add: it action_item_def item_actions_def neither)
  qed
qed

lemma state_actions_writes:
  assumes "for_each (action_item g fw trs i) state tbl = Returns tbl'"
  shows "for_each (\<lambda>w. write_action (fst w) (fst (snd w)) (snd (snd w)))
           (concat (map (\<lambda>it. map (Pair i) (item_actions g fw trs i it)) state)) tbl = Returns tbl'"
  by (rule for_each_concat) (rule for_each_cong_Returns [OF assms], rule action_item_writes)

lemma table_actions_writes:
  assumes "for_each (\<lambda>(state_idx, state). for_each (action_item g fw trs state_idx) state)
             (zip [0 ..< length states] states) tbl = Returns tbl'"
  shows "for_each (\<lambda>w. write_action (fst w) (fst (snd w)) (snd (snd w)))
           (table_actions g fw trs states) tbl = Returns tbl'"
  unfolding table_actions_def
proof (rule for_each_concat, rule for_each_cong_Returns [OF assms])
  fix x :: "nat \<times> item list" and a b
  assume "(case x of (state_idx, state) \<Rightarrow> for_each (action_item g fw trs state_idx) state) a = Returns b"
  then show "for_each (\<lambda>w. write_action (fst w) (fst (snd w)) (snd (snd w)))
      (case x of (state_idx, state) \<Rightarrow>
         concat (map (\<lambda>it. map (Pair state_idx) (item_actions g fw trs state_idx it)) state)) a
      = Returns b"
    by (cases x) (auto dest: state_actions_writes)
qed

lemma map_of_fresh_rows:
  "map_of (fold (\<lambda>i. AList.update i []) xs acc) i = (if i \<in> set xs then Some [] else map_of acc i)"
  by (induction xs arbitrary: acc) (auto simp: update_conv')

lemma fresh_rows_cell: "slr_cell (fold (\<lambda>i. AList.update i []) xs []) i t = None"
  by (simp add: slr_cell_def map_of_fresh_rows)

lemma distinct_fresh_rows:
  "distinct_table acc \<Longrightarrow> distinct_table (fold (\<lambda>i. AList.update i []) xs acc)"
proof (induction xs arbitrary: acc)
  case Nil
  then show ?case by simp
next
  case (Cons x xs)
  have "distinct_table (AList.update x [] acc)"
    using Cons.prems by (auto simp: distinct_table_def distinct_update update_conv')
  then show ?case using Cons.IH by simp
qed

lemma write_action_distinct:
  assumes "write_action i t a tbl = Returns tbl'" and "distinct_table tbl"
  shows "distinct_table tbl'"
proof -
  from assms(1) obtain row c where row: "map_of tbl i = Some row"
    and tbl': "tbl' = AList.update i (AList.update t c row) tbl"
    by (auto simp: write_action_def split: option.splits)
  have "distinct (map fst (AList.update t c row))"
    using assms(2) row by (auto simp: distinct_table_def intro: distinct_update)
  then show ?thesis
    using assms(2) unfolding tbl' by (auto simp: distinct_table_def distinct_update update_conv')
qed

lemma writes_distinct:
  assumes "for_each (\<lambda>w. write_action (fst w) (fst (snd w)) (snd (snd w))) ws tbl = Returns tbl'"
    and "distinct_table tbl"
  shows "distinct_table tbl'"
  using assms(1)
  by (rule for_each_invariant [where I = distinct_table]) (use assms(2) write_action_distinct in blast)+

lemma check_if_slr1_cells:
  assumes "distinct_table tbl"
  shows "check_if_slr1 tbl \<longleftrightarrow> (\<forall>i t. slr_cell tbl i t \<noteq> Some None)"
proof
  assume c: "check_if_slr1 tbl"
  show "\<forall>i t. slr_cell tbl i t \<noteq> Some None"
  proof (intro allI notI)
    fix i t assume "slr_cell tbl i t = Some None"
    then obtain row where "map_of tbl i = Some row" and "map_of row t = Some None"
      by (auto simp: slr_cell_def split: option.splits)
    then have "(i, row) \<in> set tbl" and "(t, None) \<in> set row"
      by (auto dest: map_of_SomeD)
    with c show False by (fastforce simp: check_if_slr1_def list_all_iff)
  qed
next
  assume n: "\<forall>i t. slr_cell tbl i t \<noteq> Some None"
  have "c \<noteq> None" if "(i, row) \<in> set tbl" and "(t, c) \<in> set row" for i row t c
  proof -
    from that(1) assms have r: "map_of tbl i = Some row" by (simp add: distinct_table_def)
    with assms have "distinct (map fst row)" by (auto simp: distinct_table_def)
    with that(2) have "map_of row t = Some c" by simp
    with r n [rule_format, of i t] show ?thesis by (auto simp: slr_cell_def)
  qed
  then show "check_if_slr1 tbl"
    by (auto simp: check_if_slr1_def list_all_iff)
qed

lemma for_each_no_timeout:
  assumes "\<And>x a. x \<in> set xs \<Longrightarrow> f x a \<noteq> OutOfFuel"
  shows "for_each f xs s \<noteq> OutOfFuel"
  using assms
proof (induction xs arbitrary: s)
  case Nil
  show ?case by simp
next
  case (Cons x xs)
  show ?case using Cons.prems Cons.IH by (cases "f x s") auto
qed

lemma finite_initial_items_of [simp]: "finite (initial_items_of aug)"
  by (simp add: initial_items_of_def)

lemma finite_item_universe: "finite seeds \<Longrightarrow> finite (item_universe aug seeds)"
  by (simp add: item_universe_def)

lemma item_universe_seeds: "seeds \<subseteq> item_universe aug seeds"
  by (force simp: item_universe_def)

lemma item_universe_initial: "initial_items_of aug \<subseteq> item_universe aug seeds"
  by (force simp: item_universe_def)

lemma item_universe_advanced:
  "advanced_items (item_universe aug seeds) \<subseteq> item_universe aug seeds"
proof
  fix x assume "x \<in> advanced_items (item_universe aug seeds)"
  then obtain A p d where x: "x = (A, p, Suc d)" and u: "(A, p, d) \<in> item_universe aug seeds"
    and d: "d < length p"
    by (auto simp: advanced_items_def)
  from u obtain it where it: "it \<in> initial_items_of aug \<union> seeds" and
    "(A, p, d) \<in> (\<lambda>d. (fst it, fst (snd it), d)) ` {snd (snd it) .. max (snd (snd it)) (length (fst (snd it)))}"
    unfolding item_universe_def by blast
  then have "A = fst it" "p = fst (snd it)" "snd (snd it) \<le> d" by auto
  with d have "(A, p, Suc d) \<in> (\<lambda>d. (fst it, fst (snd it), d)) ` {snd (snd it) .. max (snd (snd it)) (length (fst (snd it)))}"
    by auto
  with it show "x \<in> item_universe aug seeds" unfolding x item_universe_def by blast
qed

lemma closure_item_adds:
  assumes "closure_item aug cl it acc = Returns acc'"
  shows "set acc \<subseteq> set acc' \<and> set acc' \<subseteq> set acc \<union> (initial_items_of aug - set cl)"
proof -
  obtain A p d where it: "it = (A, p, d)" by (cases it)
  have fold_adds: "set (fold (\<lambda>q acc. if (B, q, 0) \<in> set cl then acc else set_add (B, q, 0) acc) qs acc0)
      = set acc0 \<union> ((\<lambda>q. (B, q, 0)) ` set qs - set cl)" for B qs acc0
    by (induction qs arbitrary: acc0) auto
  show ?thesis
  proof (cases "d \<ge> length p \<or> p = ''e'' \<or> [p ! d] \<notin> set (non_terminals aug)")
    case True
    with assms show ?thesis by (auto simp: it closure_item_def split: if_splits)
  next
    case False
    with assms obtain prods where prods: "map_of (productions aug) [p ! d] = Some prods"
      and acc': "acc' = fold (\<lambda>q acc. if ([p ! d], q, 0) \<in> set cl then acc else set_add ([p ! d], q, 0) acc) prods acc"
      by (auto simp: it closure_item_def split: if_splits option.splits)
    from prods have "([p ! d], prods) \<in> set (productions aug)" by (rule map_of_SomeD)
    then have "(\<lambda>q. ([p ! d], q, 0)) ` set prods \<subseteq> initial_items_of aug"
      by (force simp: initial_items_of_def)
    then show ?thesis unfolding acc' fold_adds by auto
  qed
qed

lemma closure_pass_adds:
  assumes "for_each (closure_item aug cl) xs acc = Returns new_items"
  shows "set acc \<subseteq> set new_items \<and> set new_items \<subseteq> set acc \<union> (initial_items_of aug - set cl)"
  using assms
  by (rule for_each_invariant
        [where I = "\<lambda>x. set acc \<subseteq> set x \<and> set x \<subseteq> set acc \<union> (initial_items_of aug - set cl)"])
     (auto dest!: closure_item_adds)

lemma closure_item_no_timeout: "closure_item aug cl it acc \<noteq> OutOfFuel"
  by (cases it) (auto simp: closure_item_def split: option.splits)

lemma closure_loop_result:
  "closure_loop fuel aug cl = Returns r \<Longrightarrow> set cl \<subseteq> set r \<and> set r \<subseteq> set cl \<union> initial_items_of aug"
proof (induction fuel arbitrary: cl)
  case 0
  then show ?case by simp
next
  case (Suc fuel)
  from Suc.prems obtain new_items where p: "for_each (closure_item aug cl) cl [] = Returns new_items"
    and r: "(if new_items = [] then Returns cl else closure_loop fuel aug (set_update new_items cl)) = Returns r"
    by (auto simp: then_do_Returns)
  show ?case
  proof (cases "new_items = []")
    case True
    with r show ?thesis by simp
  next
    case False
    with r have "closure_loop fuel aug (set_update new_items cl) = Returns r" by simp
    from Suc.IH [OF this] closure_pass_adds [OF p] show ?thesis by auto
  qed
qed

lemma closure_loop_terminates:
  "card (initial_items_of aug - set cl) < fuel \<Longrightarrow> closure_loop fuel aug cl \<noteq> OutOfFuel"
proof (induction fuel arbitrary: cl)
  case 0
  then show ?case by simp
next
  case (Suc fuel)
  show ?case
  proof (cases "for_each (closure_item aug cl) cl []")
    case (Returns new_items)
    show ?thesis
    proof (cases "new_items = []")
      case True
      with Returns show ?thesis by simp
    next
      case False
      from closure_pass_adds [OF Returns] have sub: "set new_items \<subseteq> initial_items_of aug - set cl"
        by simp
      from False obtain x where x: "x \<in> set new_items" by (cases new_items) auto
      have "initial_items_of aug - set (set_update new_items cl) \<subset> initial_items_of aug - set cl"
        using sub x by auto
      then have "card (initial_items_of aug - set (set_update new_items cl))
          < card (initial_items_of aug - set cl)"
        by (intro psubset_card_mono) auto
      with Suc.prems have "card (initial_items_of aug - set (set_update new_items cl)) < fuel" by simp
      from Suc.IH [OF this] Returns False show ?thesis by simp
    qed
  next
    case (Raises e)
    then show ?thesis by simp
  next
    case OutOfFuel
    with for_each_no_timeout [of cl "closure_item aug cl" "[]"] closure_item_no_timeout
    show ?thesis by blast
  qed
qed

lemma goto_items_advanced: "set (goto_items items X) \<subseteq> advanced_items (set items)"
proof -
  have "set (fold (\<lambda>it acc. case it of (A, p, d) \<Rightarrow>
             if d \<ge> length p \<or> p = ''e'' then acc
             else if [p ! d] = X then set_add (A, p, d + 1) acc else acc) xs acc0)
      \<subseteq> set acc0 \<union> advanced_items (set xs)" for xs acc0
  proof (induction xs arbitrary: acc0)
    case Nil
    show ?case by simp
  next
    case (Cons x xs)
    obtain A p d where x: "x = (A, p, d)" by (cases x)
    have mono: "advanced_items (set xs) \<subseteq> advanced_items (set (x # xs))"
      by (auto simp: advanced_items_def)
    have here: "d < length p \<Longrightarrow> (A, p, Suc d) \<in> advanced_items (set (x # xs))"
      by (force simp: advanced_items_def x)
    show ?case
      using Cons.IH [of acc0] Cons.IH [of "set_add (A, p, d + 1) acc0"] mono here
      by (auto simp: x)
  qed
  from this [of items "[]"] show ?thesis by (simp add: goto_items_def)
qed

lemma goto_result:
  assumes "goto fuel aug items X = Returns r"
  shows "set r \<subseteq> advanced_items (set items) \<union> initial_items_of aug"
  using closure_loop_result [of fuel aug "goto_items items X" r] assms goto_items_advanced [of items X]
  by (auto simp: goto_def closure_def)

lemma goto_terminates:
  "card (initial_items_of aug) < fuel \<Longrightarrow> goto fuel aug items X \<noteq> OutOfFuel"
proof -
  assume b: "card (initial_items_of aug) < fuel"
  have "card (initial_items_of aug - set (goto_items items X)) \<le> card (initial_items_of aug)"
    by (intro card_mono) auto
  with b show ?thesis
    unfolding goto_def closure_def by (intro closure_loop_terminates) simp
qed


lemma same_set_iff: "same_set xs ys \<longleftrightarrow> set xs = set ys"
  by (auto simp: same_set_def list_all_iff)

lemma state_index_Some:
  "state_index states r = Some j \<Longrightarrow> j < length states \<and> set (states ! j) = set r"
proof (induction states arbitrary: j)
  case Nil
  then show ?case by simp
next
  case (Cons s states)
  show ?case
  proof (cases "set s = set r")
    case True
    with Cons.prems show ?thesis by (simp add: same_set_iff)
  next
    case False
    with Cons.prems obtain k where "state_index states r = Some k" and "j = Suc k"
      by (auto simp: same_set_iff)
    with Cons.IH show ?thesis by auto
  qed
qed

lemma advanced_items_mono: "S \<subseteq> T \<Longrightarrow> advanced_items S \<subseteq> advanced_items T"
  by (auto simp: advanced_items_def)

lemma canonical_symbol_step:
  assumes ok: "collection_ok cfuel aug symbols U st"
    and U: "initial_items_of aug \<subseteq> U" "advanced_items U \<subseteq> U"
    and i: "i < length (fst st)" and X: "X \<in> set symbols"
    and run: "canonical_symbol cfuel aug i (fst st ! i) X st = Returns st'"
  shows "collection_ok cfuel aug symbols U st' \<and> (\<exists>ext. fst st' = fst st @ ext)"
proof -
  obtain states trs where st: "st = (states, trs)" by (cases st)
  from run have "then_do (goto cfuel aug (states ! i) X)
       (\<lambda>r. if r \<noteq> [] \<and> \<not> list_ex (\<lambda>s. same_set s r) states then
            Returns (states @ [r], AList.update (i, X) (length (states @ [r]) - 1) trs)
          else if r \<noteq> [] then
            (case state_index states r of
               None \<Rightarrow> Raises ValueError
             | Some j \<Rightarrow> Returns (states, AList.update (i, X) j trs))
          else Returns (states, trs)) = Returns st'"
    unfolding canonical_symbol_def st fst_conv snd_conv .
  then obtain r where r: "goto cfuel aug (states ! i) X = Returns r"
    and rest: "(if r \<noteq> [] \<and> \<not> list_ex (\<lambda>s. same_set s r) states then
            Returns (states @ [r], AList.update (i, X) (length (states @ [r]) - 1) trs)
          else if r \<noteq> [] then
            (case state_index states r of
               None \<Rightarrow> Raises ValueError
             | Some j \<Rightarrow> Returns (states, AList.update (i, X) j trs))
          else Returns (states, trs)) = Returns st'"
    unfolding then_do_Returns by blast
  from ok have d: "distinct (map set states)" and ne: "[] \<notin> set states"
    and sub: "\<forall>s \<in> set states. set s \<subseteq> U"
    and tr: "\<And>k Y j. map_of trs (k, Y) = Some j \<Longrightarrow>
            k < length states \<and> j < length states \<and> Y \<in> set symbols
            \<and> (\<exists>r. goto cfuel aug (states ! k) Y = Returns r \<and> r \<noteq> [] \<and> set (states ! j) = set r)"
    by (auto simp: collection_ok_def st)
  have "set (states ! i) \<subseteq> U" using sub i by (simp add: st)
  then have "advanced_items (set (states ! i)) \<subseteq> U"
    using advanced_items_mono U(2) by blast
  with goto_result [OF r] U(1) have rU: "set r \<subseteq> U" by blast
  consider (new) "r \<noteq> []" "\<not> list_ex (\<lambda>s. same_set s r) states"
    | (old) "r \<noteq> []" "list_ex (\<lambda>s. same_set s r) states"
    | (empty) "r = []"
    by blast
  then show ?thesis
  proof cases
    case new
    with rest have st': "st' = (states @ [r], AList.update (i, X) (length states) trs)" by auto
    from new(2) have fresh: "set r \<notin> set ` set states" by (auto simp: list_ex_iff same_set_iff)
    have tr': "k < length (states @ [r]) \<and> j < length (states @ [r]) \<and> Y \<in> set symbols
            \<and> (\<exists>q. goto cfuel aug ((states @ [r]) ! k) Y = Returns q \<and> q \<noteq> []
                    \<and> set ((states @ [r]) ! j) = set q)"
      if "map_of (AList.update (i, X) (length states) trs) (k, Y) = Some j" for k Y j
    proof (cases "(k, Y) = (i, X)")
      case True
      with that have "j = length states" by (simp add: update_conv')
      with True i r new(1) X show ?thesis by (auto simp: st nth_append)
    next
      case False
      with that have "map_of trs (k, Y) = Some j" by (auto simp: update_conv')
      from tr [OF this] show ?thesis by (auto simp: nth_append)
    qed
    show ?thesis
      unfolding st' collection_ok_def fst_conv snd_conv
      using d ne sub fresh new(1) rU tr' by (auto simp: st)
  next
    case old
    show ?thesis
    proof (cases "state_index states r")
      case None
      with old rest show ?thesis by auto
    next
      case (Some j0)
      with old rest have st': "st' = (states, AList.update (i, X) j0 trs)" by auto
      from state_index_Some [OF Some] have j0: "j0 < length states" "set (states ! j0) = set r" by auto
      have tr': "k < length states \<and> j < length states \<and> Y \<in> set symbols
            \<and> (\<exists>q. goto cfuel aug (states ! k) Y = Returns q \<and> q \<noteq> [] \<and> set (states ! j) = set q)"
        if "map_of (AList.update (i, X) j0 trs) (k, Y) = Some j" for k Y j
      proof (cases "(k, Y) = (i, X)")
        case True
        with that have "j = j0" by (simp add: update_conv')
        with True i r old(1) X j0 show ?thesis by (auto simp: st)
      next
        case False
        with that have "map_of trs (k, Y) = Some j" by (auto simp: update_conv')
        from tr [OF this] show ?thesis .
      qed
      show ?thesis
        unfolding st' collection_ok_def fst_conv snd_conv
        using d ne sub tr' by (auto simp: st)
    qed
  next
    case empty
    with rest have "st' = st" by (simp add: st)
    with ok show ?thesis by simp
  qed
qed

lemma canonical_pass_step:
  assumes ok: "collection_ok cfuel aug symbols U st"
    and U: "initial_items_of aug \<subseteq> U" "advanced_items U \<subseteq> U"
    and i: "i < length (fst st)"
    and run: "for_each (canonical_symbol cfuel aug i (fst st ! i)) symbols st = Returns st'"
  shows "collection_ok cfuel aug symbols U st' \<and> (\<exists>ext. fst st' = fst st @ ext)"
proof -
  let ?I = "\<lambda>x. collection_ok cfuel aug symbols U x \<and> (\<exists>ext. fst x = fst st @ ext)"
  show ?thesis
    using run
  proof (rule for_each_invariant [where I = ?I])
    show "?I st" using ok by simp
  next
    fix X a b
    assume X: "X \<in> set symbols" and a: "?I a"
      and step: "canonical_symbol cfuel aug i (fst st ! i) X a = Returns b"
    from a obtain ext where ext: "fst a = fst st @ ext" by blast
    with i have ia: "i < length (fst a)" and same: "fst a ! i = fst st ! i"
      by (simp_all add: nth_append)
    have "collection_ok cfuel aug symbols U b \<and> (\<exists>e. fst b = fst a @ e)"
    proof (rule canonical_symbol_step [OF _ U ia X])
      show "collection_ok cfuel aug symbols U a" using a by blast
      show "canonical_symbol cfuel aug i (fst a ! i) X a = Returns b" using step same by simp
    qed
    with ext show "?I b" by auto
  qed
qed

declare canonical_loop.simps [simp del]

lemma canonical_loop_ok:
  assumes U: "initial_items_of aug \<subseteq> U" "advanced_items U \<subseteq> U"
  shows "canonical_loop fuel cfuel aug symbols st i = Returns st'
     \<Longrightarrow> collection_ok cfuel aug symbols U st \<Longrightarrow> collection_ok cfuel aug symbols U st'"
proof (induction fuel arbitrary: st i)
  case 0
  then show ?case
    by (subst (asm) canonical_loop.simps) (auto split: if_splits)
next
  case (Suc fuel)
  show ?case
  proof (cases "i < length (fst st)")
    case False
    with Suc.prems show ?thesis
      by (subst (asm) canonical_loop.simps) auto
  next
    case True
    with Suc.prems(1) obtain m where
      p: "for_each (canonical_symbol cfuel aug i (fst st ! i)) symbols st = Returns m" and
      r: "canonical_loop fuel cfuel aug symbols m (i + 1) = Returns st'"
      by (subst (asm) canonical_loop.simps) (auto simp: then_do_Returns)
    from canonical_pass_step [OF Suc.prems(2) U True p] have "collection_ok cfuel aug symbols U m"
      by simp
    with r Suc.IH show ?thesis by blast
  qed
qed

lemma canonical_symbol_no_timeout:
  assumes "card (initial_items_of aug) < cfuel"
  shows "canonical_symbol cfuel aug i cur X st \<noteq> OutOfFuel"
proof (cases "goto cfuel aug cur X")
  case (Returns r)
  then show ?thesis by (auto simp: canonical_symbol_def split: option.splits)
next
  case (Raises e)
  then show ?thesis by (simp add: canonical_symbol_def)
next
  case OutOfFuel
  with goto_terminates [OF assms] show ?thesis by blast
qed

lemma states_bound:
  assumes "finite U" and "collection_ok cfuel aug symbols U st"
  shows "length (fst st) \<le> 2 ^ card U"
proof -
  from assms(2) have d: "distinct (map set (fst st))" and s: "set (map set (fst st)) \<subseteq> Pow U"
    by (auto simp: collection_ok_def)
  have "length (fst st) = card (set (map set (fst st)))"
    using d by (metis distinct_card length_map)
  also have "\<dots> \<le> card (Pow U)"
    using s assms(1) by (intro card_mono) auto
  finally show ?thesis using assms(1) by (simp add: card_Pow)
qed

lemma canonical_loop_terminates:
  assumes U: "initial_items_of aug \<subseteq> U" "advanced_items U \<subseteq> U" "finite U"
    and c: "card (initial_items_of aug) < cfuel"
  shows "collection_ok cfuel aug symbols U st \<Longrightarrow> 2 ^ card U \<le> fuel + i
     \<Longrightarrow> canonical_loop fuel cfuel aug symbols st i \<noteq> OutOfFuel"
proof (induction fuel arbitrary: st i)
  case 0
  from states_bound [OF U(3) 0(1)] 0(2) have "\<not> i < length (fst st)" by simp
  then show ?case by (subst canonical_loop.simps) simp
next
  case (Suc fuel)
  show ?case
  proof (cases "i < length (fst st)")
    case False
    then show ?thesis by (subst canonical_loop.simps) simp
  next
    case True
    show ?thesis
    proof (cases "for_each (canonical_symbol cfuel aug i (fst st ! i)) symbols st")
      case (Returns m)
      from canonical_pass_step [OF Suc.prems(1) U(1,2) True Returns]
      have "collection_ok cfuel aug symbols U m" by simp
      moreover have "2 ^ card U \<le> fuel + (i + 1)" using Suc.prems(2) by simp
      ultimately have "canonical_loop fuel cfuel aug symbols m (i + 1) \<noteq> OutOfFuel"
        by (rule Suc.IH)
      with True Returns show ?thesis by (subst canonical_loop.simps) simp
    next
      case (Raises e)
      with True show ?thesis by (subst canonical_loop.simps) simp
    next
      case OutOfFuel
      with for_each_no_timeout [of symbols "canonical_symbol cfuel aug i (fst st ! i)" st]
        canonical_symbol_no_timeout [OF c]
      show ?thesis by blast
    qed
  qed
qed

lemma for_each_raises:
  "for_each f xs s = Raises e \<Longrightarrow> \<exists>x \<in> set xs. \<exists>a. f x a = Raises e"
proof (induction xs arbitrary: s)
  case Nil
  then show ?case by simp
next
  case (Cons x xs)
  show ?case
  proof (cases "f x s")
    case (Returns m)
    with Cons.prems have "for_each f xs m = Raises e" by simp
    from Cons.IH [OF this] show ?thesis by auto
  next
    case (Raises e')
    with Cons.prems have "e' = e" by simp
    with Raises show ?thesis by auto
  next
    case OutOfFuel
    with Cons.prems show ?thesis by simp
  qed
qed

lemma closure_item_raises:
  assumes "closure_item aug cl it acc = Raises e"
  shows "e = KeyError \<and> (\<exists>A \<in> set (non_terminals aug). map_of (productions aug) A = None)"
proof -
  obtain A p d where it: "it = (A, p, d)" by (cases it)
  show ?thesis
  proof (cases "d \<ge> length p \<or> p = ''e'' \<or> [p ! d] \<notin> set (non_terminals aug)")
    case True
    with assms show ?thesis by (auto simp: it closure_item_def split: if_splits)
  next
    case False
    with assms show ?thesis
      by (cases "map_of (productions aug) [p ! d]") (auto simp: it closure_item_def)
  qed
qed

lemma closure_loop_raises:
  "closure_loop fuel aug cl = Raises e
     \<Longrightarrow> e = KeyError \<and> (\<exists>A \<in> set (non_terminals aug). map_of (productions aug) A = None)"
proof (induction fuel arbitrary: cl)
  case 0
  then show ?case by simp
next
  case (Suc fuel)
  show ?case
  proof (cases "for_each (closure_item aug cl) cl []")
    case (Returns new_items)
    with Suc.prems have "new_items \<noteq> []" by auto
    with Returns Suc.prems have "closure_loop fuel aug (set_update new_items cl) = Raises e" by simp
    then show ?thesis by (rule Suc.IH)
  next
    case (Raises e')
    with Suc.prems have "e' = e" by simp
    with Raises for_each_raises [of "closure_item aug cl" cl "[]" e] closure_item_raises
    show ?thesis by blast
  next
    case OutOfFuel
    with Suc.prems show ?thesis by simp
  qed
qed

lemma goto_raises:
  "goto fuel aug items X = Raises e
     \<Longrightarrow> e = KeyError \<and> (\<exists>A \<in> set (non_terminals aug). map_of (productions aug) A = None)"
  unfolding goto_def closure_def by (rule closure_loop_raises)

lemma state_index_found:
  "list_ex (\<lambda>s. same_set s r) states \<Longrightarrow> \<exists>j. state_index states r = Some j"
  by (induction states) auto

text \<open>What \<^verbatim>\<open>canonical_symbol\<close> does with the result of \<^verbatim>\<open>goto\<close>.\<close>

lemma canonical_symbol_cases:
  "canonical_symbol cfuel aug i cur X st =
     (case goto cfuel aug cur X of
        Returns r \<Rightarrow>
          if r = [] then Returns st
          else if list_ex (\<lambda>s. same_set s r) (fst st)
          then (case state_index (fst st) r of
                  None \<Rightarrow> Raises ValueError
                | Some j \<Rightarrow> Returns (fst st, AList.update (i, X) j (snd st)))
          else Returns (fst st @ [r], AList.update (i, X) (length (fst st)) (snd st))
      | Raises e \<Rightarrow> Raises e
      | OutOfFuel \<Rightarrow> OutOfFuel)"
  by (cases "goto cfuel aug cur X") (auto simp: canonical_symbol_def)

lemma canonical_symbol_raises:
  assumes "canonical_symbol cfuel aug i cur X st = Raises e"
  shows "e = KeyError \<and> (\<exists>A \<in> set (non_terminals aug). map_of (productions aug) A = None)"
proof (cases "goto cfuel aug cur X")
  case (Returns r)
  show ?thesis
  proof (cases "r \<noteq> [] \<and> list_ex (\<lambda>s. same_set s r) (fst st)")
    case True
    then obtain j where "state_index (fst st) r = Some j" using state_index_found by blast
    with assms Returns True show ?thesis by (simp add: canonical_symbol_cases)
  next
    case False
    with assms Returns show ?thesis by (auto simp: canonical_symbol_cases split: if_splits)
  qed
next
  case (Raises e')
  with assms have "e' = e" by (simp add: canonical_symbol_cases)
  with Raises goto_raises show ?thesis by blast
next
  case OutOfFuel
  with assms show ?thesis by (simp add: canonical_symbol_cases)
qed

lemma canonical_loop_raises:
  "canonical_loop fuel cfuel aug symbols st i = Raises e
     \<Longrightarrow> e = KeyError \<and> (\<exists>A \<in> set (non_terminals aug). map_of (productions aug) A = None)"
proof (induction fuel arbitrary: st i)
  case 0
  then show ?case
    by (subst (asm) canonical_loop.simps) (auto split: if_splits)
next
  case (Suc fuel)
  show ?case
  proof (cases "i < length (fst st)")
    case False
    with Suc.prems show ?thesis
      by (subst (asm) canonical_loop.simps) auto
  next
    case True
    show ?thesis
    proof (cases "for_each (canonical_symbol cfuel aug i (fst st ! i)) symbols st")
      case (Returns m)
      with True Suc.prems have "canonical_loop fuel cfuel aug symbols m (i + 1) = Raises e"
        by (subst (asm) canonical_loop.simps) simp
      then show ?thesis by (rule Suc.IH)
    next
      case (Raises e')
      with True Suc.prems have "e' = e"
        by (subst (asm) canonical_loop.simps) simp
      with Raises for_each_raises [of "canonical_symbol cfuel aug i (fst st ! i)" symbols st e]
        canonical_symbol_raises
      show ?thesis by blast
    next
      case OutOfFuel
      with True Suc.prems show ?thesis
        by (subst (asm) canonical_loop.simps) simp
    qed
  qed
qed

lemma build_canonical_collection_raises:
  assumes "build_canonical_collection fuel g aug symbols = Raises e"
  shows "e = KeyError \<and> (\<exists>A \<in> set (non_terminals aug). map_of (productions aug) A = None)"
proof (cases "closure fuel aug [(S_prime, start_symbol g, 0)]")
  case (Returns init)
  with assms have "canonical_loop fuel fuel aug symbols ([init], []) 0 = Raises e"
    by (simp add: build_canonical_collection_def)
  then show ?thesis by (rule canonical_loop_raises)
next
  case (Raises e')
  with assms have "e' = e" by (simp add: build_canonical_collection_def)
  with Raises closure_loop_raises show ?thesis unfolding closure_def by blast
next
  case OutOfFuel
  with assms show ?thesis by (simp add: build_canonical_collection_def)
qed

text \<open>Every symbol of a pass leaves its transition behind, and no transition is lost.\<close>

lemma canonical_symbol_records:
  assumes "canonical_symbol cfuel aug i cur X st = Returns st'"
  shows "\<exists>r. goto cfuel aug cur X = Returns r \<and> (r \<noteq> [] \<longrightarrow> map_of (snd st') (i, X) \<noteq> None)"
proof (cases "goto cfuel aug cur X")
  case (Returns r)
  have "map_of (snd st') (i, X) \<noteq> None" if "r \<noteq> []"
  proof (cases "list_ex (\<lambda>s. same_set s r) (fst st)")
    case True
    then obtain j where "state_index (fst st) r = Some j" using state_index_found by blast
    with assms Returns True that show ?thesis
      by (auto simp: canonical_symbol_cases update_conv')
  next
    case False
    with assms Returns that show ?thesis
      by (auto simp: canonical_symbol_cases update_conv')
  qed
  with Returns show ?thesis by simp
next
  case (Raises e)
  with assms show ?thesis by (simp add: canonical_symbol_cases)
next
  case OutOfFuel
  with assms show ?thesis by (simp add: canonical_symbol_cases)
qed

lemma canonical_symbol_keeps:
  assumes "canonical_symbol cfuel aug i cur X st = Returns st'" and "map_of (snd st) k \<noteq> None"
  shows "map_of (snd st') k \<noteq> None"
proof (cases "goto cfuel aug cur X")
  case (Returns r)
  show ?thesis
  proof (cases "r \<noteq> [] \<and> list_ex (\<lambda>s. same_set s r) (fst st)")
    case True
    then obtain j where "state_index (fst st) r = Some j" using state_index_found by blast
    with assms Returns True show ?thesis
      by (auto simp: canonical_symbol_cases update_conv')
  next
    case False
    with assms Returns show ?thesis
      by (auto simp: canonical_symbol_cases update_conv' split: if_splits)
  qed
next
  case (Raises e)
  with assms show ?thesis by (simp add: canonical_symbol_cases)
next
  case OutOfFuel
  with assms show ?thesis by (simp add: canonical_symbol_cases)
qed

lemma canonical_pass_keeps:
  assumes "for_each (canonical_symbol cfuel aug i cur) symbols st = Returns st'"
    and "map_of (snd st) k \<noteq> None"
  shows "map_of (snd st') k \<noteq> None"
  using assms(1)
  by (rule for_each_invariant [where I = "\<lambda>x. map_of (snd x) k \<noteq> None"])
     (use assms(2) canonical_symbol_keeps in blast)+

lemma canonical_pass_records:
  "for_each (canonical_symbol cfuel aug i cur) symbols st = Returns st' \<Longrightarrow> X \<in> set symbols
     \<Longrightarrow> \<exists>r. goto cfuel aug cur X = Returns r \<and> (r \<noteq> [] \<longrightarrow> map_of (snd st') (i, X) \<noteq> None)"
proof (induction symbols arbitrary: st)
  case Nil
  then show ?case by simp
next
  case (Cons Y symbols)
  from Cons.prems(1) obtain m where m: "canonical_symbol cfuel aug i cur Y st = Returns m"
    and r: "for_each (canonical_symbol cfuel aug i cur) symbols m = Returns st'"
    by (auto simp: then_do_Returns)
  show ?case
  proof (cases "X \<in> set symbols")
    case True
    with r Cons.IH show ?thesis by blast
  next
    case False
    with Cons.prems(2) have "X = Y" by simp
    with canonical_symbol_records [OF m] obtain q where
      q: "goto cfuel aug cur X = Returns q" "q \<noteq> [] \<longrightarrow> map_of (snd m) (i, X) \<noteq> None"
      by blast
    with canonical_pass_keeps [OF r] show ?thesis by blast
  qed
qed

lemma canonical_loop_complete:
  assumes U: "initial_items_of aug \<subseteq> U" "advanced_items U \<subseteq> U"
  shows "canonical_loop fuel cfuel aug symbols st i = Returns st'
     \<Longrightarrow> collection_ok cfuel aug symbols U st
     \<Longrightarrow> \<forall>k < i. \<forall>X \<in> set symbols.
           \<exists>r. goto cfuel aug (fst st ! k) X = Returns r \<and> (r \<noteq> [] \<longrightarrow> map_of (snd st) (k, X) \<noteq> None)
     \<Longrightarrow> i \<le> length (fst st)
     \<Longrightarrow> \<forall>k < length (fst st'). \<forall>X \<in> set symbols.
           \<exists>r. goto cfuel aug (fst st' ! k) X = Returns r \<and> (r \<noteq> [] \<longrightarrow> map_of (snd st') (k, X) \<noteq> None)"
proof (induction fuel arbitrary: st i)
  case 0
  from 0(1) have "\<not> i < length (fst st)" and "st' = st"
    by (subst (asm) canonical_loop.simps, auto split: if_splits)+
  with 0(3,4) show ?case by auto
next
  case (Suc fuel)
  show ?case
  proof (cases "i < length (fst st)")
    case False
    with Suc.prems(1) have "st' = st"
      by (subst (asm) canonical_loop.simps) auto
    with False Suc.prems(3,4) show ?thesis by auto
  next
    case True
    with Suc.prems(1) obtain m where
      p: "for_each (canonical_symbol cfuel aug i (fst st ! i)) symbols st = Returns m" and
      r: "canonical_loop fuel cfuel aug symbols m (i + 1) = Returns st'"
      by (subst (asm) canonical_loop.simps) (auto simp: then_do_Returns)
    from canonical_pass_step [OF Suc.prems(2) U True p] obtain ext where
      okm: "collection_ok cfuel aug symbols U m" and ext: "fst m = fst st @ ext"
      by blast
    have same: "fst m ! k = fst st ! k" if "k \<le> i" for k
      using that True ext by (simp add: nth_append)
    have upto: "\<forall>k < i + 1. \<forall>X \<in> set symbols.
        \<exists>r. goto cfuel aug (fst m ! k) X = Returns r \<and> (r \<noteq> [] \<longrightarrow> map_of (snd m) (k, X) \<noteq> None)"
    proof (intro allI impI ballI)
      fix k X assume k: "k < i + 1" and X: "X \<in> set symbols"
      show "\<exists>r. goto cfuel aug (fst m ! k) X = Returns r \<and> (r \<noteq> [] \<longrightarrow> map_of (snd m) (k, X) \<noteq> None)"
      proof (cases "k = i")
        case True
        with canonical_pass_records [OF p X] same [of i] show ?thesis by simp
      next
        case False
        with k have ki: "k < i" by simp
        with Suc.prems(3) X obtain q where
          q: "goto cfuel aug (fst st ! k) X = Returns q" "q \<noteq> [] \<longrightarrow> map_of (snd st) (k, X) \<noteq> None"
          by blast
        from q(2) canonical_pass_keeps [OF p] have "q \<noteq> [] \<longrightarrow> map_of (snd m) (k, X) \<noteq> None"
          by blast
        with q(1) same [of k] ki show ?thesis by simp
      qed
    qed
    have "i + 1 \<le> length (fst m)" using True ext by simp
    from Suc.IH [OF r okm upto this] show ?thesis .
  qed
qed

section \<open>Properties of the LL(1) stack machine\<close>

text \<open>
  C6 (amended). For a parser whose grammar is LL(1) and every input string, with \<open>$\<close>
  appended if absent: whenever \<^verbatim>\<open>parse\<close> returns, it returns true exactly when the
  main loop ended with the stack empty and the cursor at the position of the final
  \<open>$\<close> or anywhere from the end of the string on. The code tests
  \<^verbatim>\<open>input_ptr >= len(input_string)\<close>, so a cursor beyond the end accepts as well.
\<close>

theorem parse_true_iff_final_cursor:
  assumes "is_ll1 P" and "LL1Parser_parse fuel P s = Returns b"
  shows "b = (\<exists>input_ptr.
                ll1_loop fuel (parse_table P) (with_end_marker s) [start_symbol (grammar P), ''$''] 0
                  = Returns (StackEmpty input_ptr)
                \<and> length (with_end_marker s) \<le> input_ptr + 1)"
proof -
  have ends: "with_end_marker s \<noteq> []" "last (with_end_marker s) = CHR ''$''"
    by (auto simp: with_end_marker_def endswith_dollar_def)
  show ?thesis
  proof (cases "ll1_loop fuel (parse_table P) (with_end_marker s) [start_symbol (grammar P), ''$''] 0")
    case (Returns r)
    then show ?thesis
      using assms ends by (cases r) (auto simp: LL1Parser_parse_def accepts_at_def)
  next
    case (Raises e)
    then show ?thesis
      using assms by (simp add: LL1Parser_parse_def)
  next
    case OutOfFuel
    then show ?thesis
      using assms by (simp add: LL1Parser_parse_def)
  qed
qed

text \<open>
  The grammar \<open>S \<rightarrow> $\<close> is LL(1). On the query \<open>$\<close> the loop pops \<open>S\<close>, matches the
  \<open>$\<close> of the production against the input and then the \<open>$\<close> at the bottom of the
  stack against the substituted end marker: the cursor ends at 2, beyond the end of
  the string.
\<close>

theorem parse_true_iff_final_cursor_witness:
  "is_ll1 \<lparr>grammar = grammar_of [(''S'', [''$''])],
            first_sets = [(''S'', [''$'']), (''$'', [''$'']), (''e'', [''e''])],
            follow_sets = [(''S'', [''$''])],
            parse_table = [(''S'', [(''$'', Some ''$'')])], is_ll1 = True\<rparr>
   \<and> LL1Parser_parse 5 \<lparr>grammar = grammar_of [(''S'', [''$''])],
            first_sets = [(''S'', [''$'']), (''$'', [''$'']), (''e'', [''e''])],
            follow_sets = [(''S'', [''$''])],
            parse_table = [(''S'', [(''$'', Some ''$'')])], is_ll1 = True\<rparr> ''$'' = Returns True
   \<and> (\<exists>input_ptr.
          ll1_loop 5 [(''S'', [(''$'', Some ''$'')])] (with_end_marker ''$'') [''S'', ''$''] 0
            = Returns (StackEmpty input_ptr)
          \<and> length (with_end_marker ''$'') \<le> input_ptr + 1)"
proof -
  let ?P = "\<lparr>grammar = grammar_of [(''S'', [''$''])],
            first_sets = [(''S'', [''$'']), (''$'', [''$'']), (''e'', [''e''])],
            follow_sets = [(''S'', [''$''])],
            parse_table = [(''S'', [(''$'', Some ''$'')])], is_ll1 = True\<rparr>"
  have a: "is_ll1 ?P" by simp
  have b: "LL1Parser_parse 5 ?P ''$'' = Returns True" by code_simp
  have c: "start_symbol (grammar ?P) = ''S''" by code_simp
  from parse_true_iff_final_cursor [OF a b] a b c show ?thesis by simp
qed

theorem parse_cursor_beyond_end_counterexample:
  "LL1Parser_init 5 (grammar_of [(''S'', [''$''])])
     = Returns \<lparr>grammar = grammar_of [(''S'', [''$''])],
                first_sets = [(''S'', [''$'']), (''$'', [''$'']), (''e'', [''e''])],
                follow_sets = [(''S'', [''$''])],
                parse_table = [(''S'', [(''$'', Some ''$'')])], is_ll1 = True\<rparr>
   \<and> LL1Parser_parse 5 \<lparr>grammar = grammar_of [(''S'', [''$''])],
            first_sets = [(''S'', [''$'']), (''$'', [''$'']), (''e'', [''e''])],
            follow_sets = [(''S'', [''$''])],
            parse_table = [(''S'', [(''$'', Some ''$'')])], is_ll1 = True\<rparr> ''$'' = Returns True
   \<and> ll1_loop 5 [(''S'', [(''$'', Some ''$'')])] (with_end_marker ''$'') [''S'', ''$''] 0
       = Returns (StackEmpty 2)
   \<and> length (with_end_marker ''$'') = 1"
  by code_simp

section \<open>Properties of FOLLOW\<close>

text \<open>
  C8. Whenever \<^verbatim>\<open>get_follow_set\<close> returns, the end marker \<open>$\<close> is in the FOLLOW set
  of the start symbol; and the FOLLOW sets only grow: every pass of the fixpoint loop
  returns a dictionary into which the one it started from has grown, and so does the
  whole loop.
\<close>

theorem follow_end_marker_and_growth:
  "(get_follow_set fuel g fs = Returns fw \<longrightarrow>
      (\<exists>s. map_of fw (start_symbol g) = Some s \<and> ''$'' \<in> set s))
   \<and> (follow_pass g fs (fw0, u0) = Returns (fw1, u1) \<longrightarrow> grows fw0 fw1)
   \<and> (follow_loop fuel g fs fw0 = Returns fw \<longrightarrow> grows fw0 fw)"
proof (intro conjI impI)
  assume r: "get_follow_set fuel g fs = Returns fw"
  then obtain s0 where s0: "map_of (follow_init g) (start_symbol g) = Some s0"
    and l: "follow_loop fuel g fs (AList.update (start_symbol g) (set_add ''$'' s0) (follow_init g)) = Returns fw"
    by (auto simp: get_follow_set_def split: option.splits)
  have "map_of (AList.update (start_symbol g) (set_add ''$'' s0) (follow_init g)) (start_symbol g)
          = Some (set_add ''$'' s0)"
    by (simp add: update_conv')
  with follow_loop_grows [OF l] show "\<exists>s. map_of fw (start_symbol g) = Some s \<and> ''$'' \<in> set s"
    unfolding grows_iff by fastforce
next
  assume "follow_pass g fs (fw0, u0) = Returns (fw1, u1)"
  from follow_pass_grows [OF this] show "grows fw0 fw1" by simp
next
  assume "follow_loop fuel g fs fw0 = Returns fw"
  then show "grows fw0 fw" by (rule follow_loop_grows)
qed

text \<open>The grammar \<open>S \<rightarrow> aSb | e\<close>: the first pass adds \<open>b\<close> to FOLLOW(S).\<close>

theorem follow_end_marker_and_growth_witness:
  "get_follow_set 5 (grammar_of [(''S'', [''aSb'', ''e''])])
      [(''S'', [''a'', ''e'']), (''a'', [''a'']), (''b'', [''b'']), (''e'', [''e''])]
     = Returns [(''S'', [''$'', ''b''])]
   \<and> (\<exists>s. map_of [(''S'', [''$'', ''b''])] (start_symbol (grammar_of [(''S'', [''aSb'', ''e''])])) = Some s
          \<and> ''$'' \<in> set s)
   \<and> follow_pass (grammar_of [(''S'', [''aSb'', ''e''])])
        [(''S'', [''a'', ''e'']), (''a'', [''a'']), (''b'', [''b'']), (''e'', [''e''])]
        ([(''S'', [''$''])], False)
     = Returns ([(''S'', [''$'', ''b''])], True)
   \<and> grows [(''S'', [''$''])] [(''S'', [''$'', ''b''])]
   \<and> follow_loop 5 (grammar_of [(''S'', [''aSb'', ''e''])])
        [(''S'', [''a'', ''e'']), (''a'', [''a'']), (''b'', [''b'']), (''e'', [''e''])]
        [(''S'', [''$''])]
     = Returns [(''S'', [''$'', ''b''])]"
proof -
  let ?g = "grammar_of [(''S'', [''aSb'', ''e''])]"
  let ?fs = "[(''S'', [''a'', ''e'']), (''a'', [''a'']), (''b'', [''b'']), (''e'', [''e''])]"
  have a: "get_follow_set 5 ?g ?fs = Returns [(''S'', [''$'', ''b''])]" by code_simp
  have b: "follow_pass ?g ?fs ([(''S'', [''$''])], False) = Returns ([(''S'', [''$'', ''b''])], True)"
    by code_simp
  have c: "follow_loop 5 ?g ?fs [(''S'', [''$''])] = Returns [(''S'', [''$'', ''b''])]" by code_simp
  from follow_end_marker_and_growth [of 5 ?g ?fs "[(''S'', [''$'', ''b''])]" "[(''S'', [''$''])]" False
      "[(''S'', [''$'', ''b''])]" True] a b c
  show ?thesis by simp
qed

section \<open>The guards of the two parse methods\<close>

text \<open>
  C2. If \<^verbatim>\<open>is_ll1\<close> is false, \<^verbatim>\<open>LL1Parser.parse\<close> returns \<^verbatim>\<open>False\<close>, and if
  \<^verbatim>\<open>is_slr1\<close> is false, \<^verbatim>\<open>SLR1Parser.parse\<close> returns \<^verbatim>\<open>False\<close>, for every input
  and whatever the tables hold. The machines are not run: the result is there for
  every fuel, also for fuel 0, with which neither loop can make a single iteration.
\<close>

theorem rejects_without_running:
  "(\<not> is_ll1 P \<longrightarrow> LL1Parser_parse fuel P s = Returns False)
   \<and> (\<not> is_slr1 Q \<longrightarrow> SLR1Parser_parse fuel Q s = Returns False)"
  by (simp add: LL1Parser_parse_def SLR1Parser_parse_def)

text \<open>
  The parsers of \<open>S \<rightarrow> e | e\<close>, which is not LL(1), and of \<open>S \<rightarrow> S\<close>, which is not
  SLR(1), as the constructors build them.
\<close>

theorem rejects_without_running_witness:
  "LL1Parser_init 5 (grammar_of [(''S'', [''e'', ''e''])])
     = Returns \<lparr>grammar = grammar_of [(''S'', [''e'', ''e''])],
                first_sets = [(''S'', [''e'']), (''e'', [''e''])],
                follow_sets = [(''S'', [''$''])],
                parse_table = [(''S'', [(''$'', None)])], is_ll1 = False\<rparr>
   \<and> LL1Parser_parse 0 \<lparr>grammar = grammar_of [(''S'', [''e'', ''e''])],
                first_sets = [(''S'', [''e'']), (''e'', [''e''])],
                follow_sets = [(''S'', [''$''])],
                parse_table = [(''S'', [(''$'', None)])], is_ll1 = False\<rparr> ''$'' = Returns False
   \<and> SLR1Parser_init 5 (grammar_of [(''S'', [''S''])])
     = Returns \<lparr>slr_grammar = grammar_of [(''S'', [''S''])],
                augmented_grammar = augment_grammar (grammar_of [(''S'', [''S''])]),
                slr_first_sets = [(''S'', []), (S_prime, []), (''e'', [''e''])],
                slr_follow_sets = [(''S'', [''$'']), (S_prime, [''$''])],
                canonical_collection =
                  ([[(S_prime, ''S'', 0), (''S'', ''S'', 0)], [(S_prime, ''S'', 1), (''S'', ''S'', 1)]],
                   [((0, ''S''), 1)]),
                action_table = [(0, []), (1, [(''$'', None)])],
                goto_table = [(0, [(''S'', 1)]), (1, [])], is_slr1 = False\<rparr>
   \<and> SLR1Parser_parse 0 \<lparr>slr_grammar = grammar_of [(''S'', [''S''])],
                augmented_grammar = augment_grammar (grammar_of [(''S'', [''S''])]),
                slr_first_sets = [(''S'', []), (S_prime, []), (''e'', [''e''])],
                slr_follow_sets = [(''S'', [''$'']), (S_prime, [''$''])],
                canonical_collection =
                  ([[(S_prime, ''S'', 0), (''S'', ''S'', 0)], [(S_prime, ''S'', 1), (''S'', ''S'', 1)]],
                   [((0, ''S''), 1)]),
                action_table = [(0, []), (1, [(''$'', None)])],
                goto_table = [(0, [(''S'', 1)]), (1, [])], is_slr1 = False\<rparr> ''S'' = Returns False"
proof -
  let ?P = "\<lparr>grammar = grammar_of [(''S'', [''e'', ''e''])],
                first_sets = [(''S'', [''e'']), (''e'', [''e''])],
                follow_sets = [(''S'', [''$''])],
                parse_table = [(''S'', [(''$'', None)])], is_ll1 = False\<rparr>"
  let ?Q = "\<lparr>slr_grammar = grammar_of [(''S'', [''S''])],
                augmented_grammar = augment_grammar (grammar_of [(''S'', [''S''])]),
                slr_first_sets = [(''S'', []), (S_prime, []), (''e'', [''e''])],
                slr_follow_sets = [(''S'', [''$'']), (S_prime, [''$''])],
                canonical_collection =
                  ([[(S_prime, ''S'', 0), (''S'', ''S'', 0)], [(S_prime, ''S'', 1), (''S'', ''S'', 1)]],
                   [((0, ''S''), 1)]),
                action_table = [(0, []), (1, [(''$'', None)])],
                goto_table = [(0, [(''S'', 1)]), (1, [])], is_slr1 = False\<rparr>"
  have a: "LL1Parser_init 5 (grammar_of [(''S'', [''e'', ''e''])]) = Returns ?P" by code_simp
  have b: "SLR1Parser_init 5 (grammar_of [(''S'', [''S''])]) = Returns ?Q" by code_simp
  have c: "\<not> is_ll1 ?P" "\<not> is_slr1 ?Q" by simp_all
  from rejects_without_running [of ?P 0 "''$''" ?Q] c have d: "LL1Parser_parse 0 ?P ''$'' = Returns False"
    by blast
  from rejects_without_running [of ?P 0 "''S''" ?Q] c have e: "SLR1Parser_parse 0 ?Q ''S'' = Returns False"
    by blast
  from a b d e show ?thesis by blast
qed

section \<open>The augmented grammar\<close>

text \<open>
  C5 (amended). For every source grammar that does not itself have a non-terminal named
  \<open>S'\<close>, the augmented grammar holds the productions of the source grammar, each
  non-terminal with its alternatives in their order, then the new non-terminal \<open>S'\<close>
  with the source start symbol as its only production, and nothing else; \<open>S'\<close> is its
  start symbol. (A non-terminal of the source with an empty list of alternatives has no
  pair to copy and gets no entry.)
\<close>

theorem augment_grammar_adds_fresh_start:
  assumes "distinct (map fst (productions g))"
    and "S_prime \<notin> fst ` set (productions g)"
    and "S_prime \<notin> set (non_terminals g) \<union> set (terminals g)"
  shows "productions (augment_grammar g)
           = filter (\<lambda>(A, ps). ps \<noteq> []) (productions g) @ [(S_prime, [start_symbol g])]
         \<and> (\<forall>A ps. map_of (productions g) A = Some ps \<and> ps \<noteq> []
               \<longrightarrow> map_of (productions (augment_grammar g)) A = Some ps)
         \<and> map_of (productions (augment_grammar g)) S_prime = Some [start_symbol g]
         \<and> fst ` set (productions (augment_grammar g)) \<subseteq> insert S_prime (fst ` set (productions g))
         \<and> S_prime \<in> set (non_terminals (augment_grammar g))
         \<and> start_symbol (augment_grammar g) = S_prime"
proof -
  let ?copy = "fold (\<lambda>(A, ps) aug. fold (\<lambda>p. add_production A [p]) ps aug) (productions g) Grammar_init"
  have c: "productions ?copy = filter (\<lambda>(A, ps). ps \<noteq> []) (productions g)"
    using copy_rules [OF assms(1), of Grammar_init] by (simp add: Grammar_init_def)
  have fresh: "map_of (productions ?copy) S_prime = None"
    using assms(2) unfolding c by (auto simp: map_of_None_keys)
  have eq: "productions (augment_grammar g)
      = filter (\<lambda>(A, ps). ps \<noteq> []) (productions g) @ [(S_prime, [start_symbol g])]"
    using fresh c by (simp add: augment_grammar_def add_production_one_productions)
  have dist: "distinct (map fst (filter (\<lambda>(A, ps). ps \<noteq> []) (productions g)))"
    using assms(1) by (simp add: distinct_map_filter)
  have pairs: "map_of (productions (augment_grammar g)) A = Some ps"
    if "map_of (productions g) A = Some ps \<and> ps \<noteq> []" for A ps
  proof -
    from that have "(A, ps) \<in> set (filter (\<lambda>(A, ps). ps \<noteq> []) (productions g))"
      by (auto dest: map_of_SomeD)
    then have "map_of (filter (\<lambda>(A, ps). ps \<noteq> []) (productions g)) A = Some ps"
      using dist by simp
    then show ?thesis unfolding eq by simp
  qed
  have sp: "map_of (productions (augment_grammar g)) S_prime = Some [start_symbol g]"
    unfolding eq using assms(2) by (auto simp: map_add_Some_iff map_of_None_keys image_iff)
  have keys: "fst ` set (productions (augment_grammar g)) \<subseteq> insert S_prime (fst ` set (productions g))"
    unfolding eq by auto
  have nt: "S_prime \<in> set (non_terminals (augment_grammar g))"
    using add_production_new_key [OF fresh, of "[start_symbol g]"] by (simp add: augment_grammar_def)
  have st: "start_symbol (augment_grammar g) = S_prime" by (simp add: augment_grammar_def)
  from eq pairs sp keys nt st show ?thesis by blast
qed

text \<open>The grammar \<open>S \<rightarrow> aSb | e\<close>.\<close>

theorem augment_grammar_adds_fresh_start_witness:
  "distinct (map fst (productions (grammar_of [(''S'', [''aSb'', ''e''])])))
   \<and> S_prime \<notin> fst ` set (productions (grammar_of [(''S'', [''aSb'', ''e''])]))
   \<and> S_prime \<notin> set (non_terminals (grammar_of [(''S'', [''aSb'', ''e''])]))
                  \<union> set (terminals (grammar_of [(''S'', [''aSb'', ''e''])]))
   \<and> productions (augment_grammar (grammar_of [(''S'', [''aSb'', ''e''])]))
       = [(''S'', [''aSb'', ''e'']), (S_prime, [''S''])]
   \<and> start_symbol (augment_grammar (grammar_of [(''S'', [''aSb'', ''e''])])) = S_prime"
proof -
  let ?g = "grammar_of [(''S'', [''aSb'', ''e''])]"
  have a: "distinct (map fst (productions ?g))" by code_simp
  have b: "S_prime \<notin> fst ` set (productions ?g)" by code_simp
  have c: "S_prime \<notin> set (non_terminals ?g) \<union> set (terminals ?g)" by code_simp
  have d: "filter (\<lambda>(A, ps). ps \<noteq> []) (productions ?g) @ [(S_prime, [start_symbol ?g])]
             = [(''S'', [''aSb'', ''e'']), (S_prime, [''S''])]" by code_simp
  from augment_grammar_adds_fresh_start [OF a b c] a b c d show ?thesis by simp
qed

text \<open>
  A grammar read from the lines \<open>S -> a\<close> and \<open>S' -> b\<close> has the non-terminal
  \<open>S'\<close> already. Its augmented grammar gets no new non-terminal, and \<open>S'\<close> has
  two productions there.
\<close>

theorem augment_grammar_name_taken_counterexample:
  "S_prime \<in> set (non_terminals (grammar_of [(''S'', [''a'']), (S_prime, [''b''])]))
   \<and> set (non_terminals (augment_grammar (grammar_of [(''S'', [''a'']), (S_prime, [''b''])])))
       = set (non_terminals (grammar_of [(''S'', [''a'']), (S_prime, [''b''])]))
   \<and> map_of (productions (augment_grammar (grammar_of [(''S'', [''a'']), (S_prime, [''b''])]))) S_prime
       = Some [''b'', ''S'']"
  by code_simp

section \<open>Conflicts of the LL(1) table\<close>

text \<open>
  C1 (amended). A write into a cell that is already occupied leaves the conflict mark
  there, whatever is written. So when a non-terminal \<open>A\<close> of a grammar has the same
  alternative at two places \<open>i < j\<close> of its list, every cell \<open>(A, t)\<close> that the
  alternative writes holds the conflict mark in the table, and if there is such a cell
  \<^verbatim>\<open>is_ll1\<close> is false. The alternative writes the cells of the terminals of its FIRST
  set and, if \<open>e\<close> is in that set, of FOLLOW(A); a duplicated alternative that writes
  no cell makes no conflict.
\<close>

theorem duplicated_alternative_is_conflict:
  "(write_cell A p t tbl = Returns tbl' \<and> ll1_cell tbl A t \<noteq> None \<longrightarrow> ll1_cell tbl' A t = Some None)
   \<and> (LL1Parser_init fuel g = Returns P \<and> (A, prods) \<in> set (productions g)
        \<and> i < j \<and> j < length prods \<and> prods ! i = prods ! j
        \<and> t \<in> set (written_cells (first_sets P) (follow_sets P) A (prods ! i))
      \<longrightarrow> ll1_cell (parse_table P) A t = Some None \<and> \<not> is_ll1 P)"
proof -
  have one: "ll1_cell tbl' A t = Some None"
    if "write_cell A p t tbl = Returns tbl' \<and> ll1_cell tbl A t \<noteq> None"
    using that by (auto simp: write_cell_cell)
  have whole: "ll1_cell (parse_table P) A t = Some None \<and> \<not> is_ll1 P"
    if h: "LL1Parser_init fuel g = Returns P \<and> (A, prods) \<in> set (productions g)
        \<and> i < j \<and> j < length prods \<and> prods ! i = prods ! j
        \<and> t \<in> set (written_cells (first_sets P) (follow_sets P) A (prods ! i))"
  proof -
    from h obtain fs fw tb where fs: "get_first_set fuel g = Returns fs"
      and fw: "get_follow_set fuel g fs = Returns fw"
      and tb: "build_parse_table g fs fw = Returns tb"
      and P: "P = \<lparr>grammar = g, first_sets = fs, follow_sets = fw, parse_table = tb,
                    is_ll1 = check_if_ll1 tb\<rparr>"
      by (auto simp: LL1Parser_init_def then_do_Returns)
    from h obtain R1 R2 where rules: "productions g = R1 @ (A, prods) # R2"
      by (meson split_list)
    from tb obtain m1 m2 where
      a: "for_each (\<lambda>(A, ps). for_each (table_production fs fw A) ps) R1 (table_init g) = Returns m1" and
      b: "for_each (table_production fs fw A) prods m1 = Returns m2" and
      c: "for_each (\<lambda>(A, ps). for_each (table_production fs fw A) ps) R2 m2 = Returns tb"
      unfolding build_parse_table_def rules by (auto simp: for_each_append then_do_Returns)
    from h have ij: "i < j" "j < length prods" "prods ! i = prods ! j"
      by blast+
    from h have "t \<in> set (written_cells (first_sets P) (follow_sets P) A (prods ! i))"
      by blast
    then have t: "t \<in> set (written_cells fs fw A (prods ! i))"
      unfolding P by simp
    have "ll1_cell m2 A t = Some None"
      by (rule duplicate_alternative_conflict [OF b ij t])
    with c have "ll1_cell tb A t = Some None" by (rule table_rules_keep_conflict)
    then show ?thesis
      using P conflict_cell_not_ll1 by simp
  qed
  from one whole show ?thesis by blast
qed

text \<open>The grammar \<open>S \<rightarrow> a | a\<close>: both alternatives write the cell \<open>(S, a)\<close>.\<close>

theorem duplicated_alternative_is_conflict_witness:
  "write_cell ''S'' ''a'' ''a'' [(''S'', [(''a'', Some ''a'')])] = Returns [(''S'', [(''a'', None)])]
   \<and> ll1_cell [(''S'', [(''a'', Some ''a'')])] ''S'' ''a'' \<noteq> None
   \<and> ll1_cell [(''S'', [(''a'', None)])] ''S'' ''a'' = Some None
   \<and> LL1Parser_init 5 (grammar_of [(''S'', [''a'', ''a''])])
       = Returns \<lparr>grammar = grammar_of [(''S'', [''a'', ''a''])],
                  first_sets = [(''S'', [''a'']), (''a'', [''a'']), (''e'', [''e''])],
                  follow_sets = [(''S'', [''$''])],
                  parse_table = [(''S'', [(''a'', None)])], is_ll1 = False\<rparr>
   \<and> (''S'', [''a'', ''a'']) \<in> set (productions (grammar_of [(''S'', [''a'', ''a''])]))
   \<and> ''a'' \<in> set (written_cells [(''S'', [''a'']), (''a'', [''a'']), (''e'', [''e''])] [(''S'', [''$''])]
                     ''S'' ''a'')
   \<and> ll1_cell [(''S'', [(''a'', None)])] ''S'' ''a'' = Some None"
proof -
  let ?g = "grammar_of [(''S'', [''a'', ''a''])]"
  let ?P = "\<lparr>grammar = ?g, first_sets = [(''S'', [''a'']), (''a'', [''a'']), (''e'', [''e''])],
             follow_sets = [(''S'', [''$''])],
             parse_table = [(''S'', [(''a'', None)])], is_ll1 = False\<rparr>"
  have a: "write_cell ''S'' ''a'' ''a'' [(''S'', [(''a'', Some ''a'')])] = Returns [(''S'', [(''a'', None)])]"
    by code_simp
  have b: "ll1_cell [(''S'', [(''a'', Some ''a'')])] ''S'' ''a'' \<noteq> None" by code_simp
  have c: "LL1Parser_init 5 ?g = Returns ?P" by code_simp
  have d: "(''S'', [''a'', ''a'']) \<in> set (productions ?g)" by code_simp
  have e: "''a'' \<in> set (written_cells (first_sets ?P) (follow_sets ?P) ''S'' ([''a'', ''a''] ! 0))"
    by code_simp
  have f: "(0::nat) < 1 \<and> 1 < length [''a'', ''a''] \<and> [''a'', ''a''] ! 0 = [''a'', ''a''] ! 1"
    by simp
  from duplicated_alternative_is_conflict
    [of "''S''" "''a''" "''a''" "[(''S'', [(''a'', Some ''a'')])]" "[(''S'', [(''a'', None)])]"
        5 ?g ?P "[''a'', ''a'']" 0 1]
    a b c d e f
  have "ll1_cell [(''S'', [(''a'', None)])] ''S'' ''a'' = Some None" by simp
  with a b c d e show ?thesis by simp
qed

text \<open>
  The grammar \<open>S \<rightarrow> S | S\<close> has a duplicated alternative. FIRST(S) is empty, so
  neither copy writes a cell: the table has no conflict and \<^verbatim>\<open>is_ll1\<close> is true.
\<close>

theorem duplicated_alternative_without_cell_counterexample:
  "LL1Parser_init 5 (grammar_of [(''S'', [''S'', ''S''])])
     = Returns \<lparr>grammar = grammar_of [(''S'', [''S'', ''S''])],
                first_sets = [(''S'', []), (''e'', [''e''])],
                follow_sets = [(''S'', [''$''])],
                parse_table = [(''S'', [])], is_ll1 = True\<rparr>"
  by code_simp

section \<open>Conflicts of the ACTION table\<close>

text \<open>
  C4. Writing into a cell the action that the cell already holds leaves the table as it
  is. In the table that \<^verbatim>\<open>_build_parsing_tables\<close> returns, a cell \<open>(i, t)\<close> holds the
  conflict mark exactly when two different actions were asked for it, and it holds an
  action exactly when that action was asked for it and no other one, however often.
  \<^verbatim>\<open>is_slr1\<close> is true exactly when no cell of the ACTION table holds the conflict mark.
\<close>

theorem action_conflict_iff_different_actions:
  "(map_of tbl i = Some row \<and> map_of row t = Some (Some a) \<longrightarrow> write_action i t a tbl = Returns tbl)
   \<and> (SLR1Parser_init fuel g = Returns P \<longrightarrow>
        (slr_cell (action_table P) i t = Some None \<longleftrightarrow>
           (\<exists>b c. b \<noteq> c
              \<and> (i, t, b) \<in> set (table_actions g (slr_follow_sets P) (snd (canonical_collection P))
                                   (fst (canonical_collection P)))
              \<and> (i, t, c) \<in> set (table_actions g (slr_follow_sets P) (snd (canonical_collection P))
                                   (fst (canonical_collection P)))))
        \<and> (slr_cell (action_table P) i t = Some (Some a) \<longleftrightarrow>
             (i, t, a) \<in> set (table_actions g (slr_follow_sets P) (snd (canonical_collection P))
                                 (fst (canonical_collection P)))
             \<and> (\<forall>b. (i, t, b) \<in> set (table_actions g (slr_follow_sets P) (snd (canonical_collection P))
                                        (fst (canonical_collection P))) \<longrightarrow> b = a))
        \<and> (is_slr1 P \<longleftrightarrow> (\<forall>j u. slr_cell (action_table P) j u \<noteq> Some None)))"
proof -
  have same: "write_action i t a tbl = Returns tbl"
    if "map_of tbl i = Some row \<and> map_of row t = Some (Some a)"
    using that by (simp add: write_action_same)
  have built: "(slr_cell (action_table P) i t = Some None \<longleftrightarrow>
           (\<exists>b c. b \<noteq> c
              \<and> (i, t, b) \<in> set (table_actions g (slr_follow_sets P) (snd (canonical_collection P))
                                   (fst (canonical_collection P)))
              \<and> (i, t, c) \<in> set (table_actions g (slr_follow_sets P) (snd (canonical_collection P))
                                   (fst (canonical_collection P)))))
        \<and> (slr_cell (action_table P) i t = Some (Some a) \<longleftrightarrow>
             (i, t, a) \<in> set (table_actions g (slr_follow_sets P) (snd (canonical_collection P))
                                 (fst (canonical_collection P)))
             \<and> (\<forall>b. (i, t, b) \<in> set (table_actions g (slr_follow_sets P) (snd (canonical_collection P))
                                        (fst (canonical_collection P))) \<longrightarrow> b = a))
        \<and> (is_slr1 P \<longleftrightarrow> (\<forall>j u. slr_cell (action_table P) j u \<noteq> Some None))"
    if init: "SLR1Parser_init fuel g = Returns P"
  proof -
    from init obtain fs where fs: "get_first_set fuel (augment_grammar g) = Returns fs"
      by (cases "get_first_set fuel (augment_grammar g)") (simp_all add: SLR1Parser_init_def)
    from init fs obtain fw where fw: "get_follow_set fuel (augment_grammar g) fs = Returns fw"
      by (cases "get_follow_set fuel (augment_grammar g) fs") (simp_all add: SLR1Parser_init_def)
    from init fs fw obtain cc where
      cc: "build_canonical_collection fuel g (augment_grammar g) (symbols_union (augment_grammar g)) = Returns cc"
      by (cases "build_canonical_collection fuel g (augment_grammar g) (symbols_union (augment_grammar g))")
         (simp_all add: SLR1Parser_init_def)
    from init fs fw cc obtain tb where
      tb: "build_parsing_tables g (augment_grammar g) fw cc = Returns tb"
      by (cases "build_parsing_tables g (augment_grammar g) fw cc") (simp_all add: SLR1Parser_init_def)
    obtain states trs where cc_eq: "cc = (states, trs)" by (cases cc)
    obtain atbl gtbl where tb_eq: "tb = (atbl, gtbl)" by (cases tb)
    have tabs: "build_parsing_tables g (augment_grammar g) fw (states, trs) = Returns (atbl, gtbl)"
      using tb cc_eq tb_eq by simp
    have P: "slr_follow_sets P = fw" "canonical_collection P = (states, trs)" "action_table P = atbl"
         "is_slr1 P = check_if_slr1 atbl"
      using init fs fw cc tb cc_eq tb_eq by (auto simp: SLR1Parser_init_def)
    let ?ws = "table_actions g fw trs states"
    let ?init = "fold (\<lambda>i. AList.update i []) [0 ..< length states] ([] :: action_table)"
    from tabs have "for_each (\<lambda>(state_idx, state). for_each (action_item g fw trs state_idx) state)
        (zip [0 ..< length states] states) ?init = Returns atbl"
      by (simp add: build_parsing_tables_def then_do_Returns)
    then have run: "for_each (\<lambda>w. write_action (fst w) (fst (snd w)) (snd (snd w))) ?ws ?init = Returns atbl"
      by (rule table_actions_writes)
    have cell: "slr_cell atbl i t = cell_after None (actions_for i t ?ws)"
      using writes_cell_after [OF run, of i t] by (simp add: fresh_rows_cell)
    have "distinct_table ?init"
      by (rule distinct_fresh_rows) (simp add: distinct_table_def)
    with run have "distinct_table atbl" by (rule writes_distinct)
    then have chk: "check_if_slr1 atbl \<longleftrightarrow> (\<forall>j u. slr_cell atbl j u \<noteq> Some None)"
      by (rule check_if_slr1_cells)
    have c1: "slr_cell atbl i t = Some None \<longleftrightarrow>
        (\<exists>b c. b \<noteq> c \<and> (i, t, b) \<in> set ?ws \<and> (i, t, c) \<in> set ?ws)"
      unfolding cell cell_after_empty_conflict Bex_def set_actions_for by blast
    have c2: "slr_cell atbl i t = Some (Some a) \<longleftrightarrow>
        (i, t, a) \<in> set ?ws \<and> (\<forall>b. (i, t, b) \<in> set ?ws \<longrightarrow> b = a)"
      unfolding cell cell_after_empty_action Ball_def set_actions_for by blast
    show ?thesis
      unfolding P fst_conv snd_conv by (intro conjI c1 c2 chk)
  qed
  show ?thesis
  proof (rule conjI)
    show "map_of tbl i = Some row \<and> map_of row t = Some (Some a) \<longrightarrow> write_action i t a tbl = Returns tbl"
      by (rule impI) (rule same)
  next
    show "SLR1Parser_init fuel g = Returns P \<longrightarrow>
        (slr_cell (action_table P) i t = Some None \<longleftrightarrow>
           (\<exists>b c. b \<noteq> c
              \<and> (i, t, b) \<in> set (table_actions g (slr_follow_sets P) (snd (canonical_collection P))
                                   (fst (canonical_collection P)))
              \<and> (i, t, c) \<in> set (table_actions g (slr_follow_sets P) (snd (canonical_collection P))
                                   (fst (canonical_collection P)))))
        \<and> (slr_cell (action_table P) i t = Some (Some a) \<longleftrightarrow>
             (i, t, a) \<in> set (table_actions g (slr_follow_sets P) (snd (canonical_collection P))
                                 (fst (canonical_collection P)))
             \<and> (\<forall>b. (i, t, b) \<in> set (table_actions g (slr_follow_sets P) (snd (canonical_collection P))
                                        (fst (canonical_collection P))) \<longrightarrow> b = a))
        \<and> (is_slr1 P \<longleftrightarrow> (\<forall>j u. slr_cell (action_table P) j u \<noteq> Some None))"
      by (rule impI) (rule built)
  qed
qed

text \<open>
  The grammar \<open>S \<rightarrow> S\<close>: in state 1 the item \<open>S' \<rightarrow> S.\<close> asks for the acceptance on
  \<open>$\<close> and the item \<open>S \<rightarrow> S.\<close> for a reduction.
\<close>

theorem action_conflict_iff_different_actions_witness:
  "map_of [(0::nat, []), (1, [(''$'', Some ''acc'')])] 1 = Some [(''$'', Some ''acc'')]
   \<and> map_of [(''$'', Some ''acc'')] ''$'' = Some (Some ''acc'')
   \<and> write_action 1 ''$'' ''acc'' [(0, []), (1, [(''$'', Some ''acc'')])]
       = Returns [(0, []), (1, [(''$'', Some ''acc'')])]
   \<and> SLR1Parser_init 5 (grammar_of [(''S'', [''S''])])
       = Returns \<lparr>slr_grammar = grammar_of [(''S'', [''S''])],
                  augmented_grammar = augment_grammar (grammar_of [(''S'', [''S''])]),
                  slr_first_sets = [(''S'', []), (S_prime, []), (''e'', [''e''])],
                  slr_follow_sets = [(''S'', [''$'']), (S_prime, [''$''])],
                  canonical_collection =
                    ([[(S_prime, ''S'', 0), (''S'', ''S'', 0)], [(S_prime, ''S'', 1), (''S'', ''S'', 1)]],
                     [((0, ''S''), 1)]),
                  action_table = [(0, []), (1, [(''$'', None)])],
                  goto_table = [(0, [(''S'', 1)]), (1, [])], is_slr1 = False\<rparr>
   \<and> (1, ''$'', ''acc'')
       \<in> set (table_actions (grammar_of [(''S'', [''S''])]) [(''S'', [''$'']), (S_prime, [''$''])]
                [((0, ''S''), 1)]
                [[(S_prime, ''S'', 0), (''S'', ''S'', 0)], [(S_prime, ''S'', 1), (''S'', ''S'', 1)]])
   \<and> (1, ''$'', ''rS->S'')
       \<in> set (table_actions (grammar_of [(''S'', [''S''])]) [(''S'', [''$'']), (S_prime, [''$''])]
                [((0, ''S''), 1)]
                [[(S_prime, ''S'', 0), (''S'', ''S'', 0)], [(S_prime, ''S'', 1), (''S'', ''S'', 1)]])
   \<and> slr_cell [(0, []), (1, [(''$'', None)])] 1 ''$'' = Some None"
proof -
  let ?g = "grammar_of [(''S'', [''S''])]"
  let ?fw = "[(''S'', [''$'']), (S_prime, [''$''])]"
  let ?states = "[[(S_prime, ''S'', 0), (''S'', ''S'', 0)], [(S_prime, ''S'', 1), (''S'', ''S'', 1)]]"
  let ?trs = "[((0::nat, ''S''), 1::nat)]"
  let ?P = "\<lparr>slr_grammar = ?g, augmented_grammar = augment_grammar ?g,
             slr_first_sets = [(''S'', []), (S_prime, []), (''e'', [''e''])],
             slr_follow_sets = ?fw, canonical_collection = (?states, ?trs),
             action_table = [(0, []), (1, [(''$'', None)])],
             goto_table = [(0, [(''S'', 1)]), (1, [])], is_slr1 = False\<rparr>"
  let ?T = "[(0::nat, []), (1, [(''$'', Some ''acc'')])]"
  have a: "map_of ?T 1 = Some [(''$'', Some ''acc'')] \<and> map_of [(''$'', Some ''acc'')] ''$'' = Some (Some ''acc'')"
    by simp
  have b: "SLR1Parser_init 5 ?g = Returns ?P" by code_simp
  have c: "(1, ''$'', ''acc'') \<in> set (table_actions ?g ?fw ?trs ?states)" by code_simp
  have d: "(1, ''$'', ''rS->S'') \<in> set (table_actions ?g ?fw ?trs ?states)" by code_simp
  have e: "''acc'' \<noteq> ''rS->S''" by simp
  note inst = action_conflict_iff_different_actions
    [of ?T 1 "[(''$'', Some ''acc'')]" "''$''" "''acc''" 5 ?g ?P]
  have w: "write_action 1 ''$'' ''acc'' ?T = Returns ?T"
    by (rule conjunct1 [OF inst, THEN mp, OF a])
  have sel: "slr_follow_sets ?P = ?fw" "snd (canonical_collection ?P) = ?trs"
    "fst (canonical_collection ?P) = ?states" "action_table ?P = [(0, []), (1, [(''$'', None)])]"
    by simp_all
  have iff: "slr_cell [(0, []), (1, [(''$'', None)])] 1 ''$'' = Some None \<longleftrightarrow>
      (\<exists>b c. b \<noteq> c \<and> (1, ''$'', b) \<in> set (table_actions ?g ?fw ?trs ?states)
             \<and> (1, ''$'', c) \<in> set (table_actions ?g ?fw ?trs ?states))"
    using conjunct1 [OF conjunct2 [OF inst, THEN mp, OF b]] unfolding sel .
  have ex: "\<exists>b c. b \<noteq> c \<and> (1, ''$'', b) \<in> set (table_actions ?g ?fw ?trs ?states)
             \<and> (1, ''$'', c) \<in> set (table_actions ?g ?fw ?trs ?states)"
    by (intro exI [of _ "''acc''"] exI [of _ "''rS->S''"] conjI e c d)
  have f: "slr_cell [(0, []), (1, [(''$'', None)])] 1 ''$'' = Some None"
    using iff ex by (rule iffD2)
  show ?thesis
    by (intro conjI conjunct1 [OF a] conjunct2 [OF a] w b c d f)
qed

section \<open>The canonical collection\<close>

text \<open>
  C7. The construction of the canonical collection ends: from some amount of fuel on,
  it never runs out of fuel, whatever the grammar and the order of the symbols. It
  never raises the \<^verbatim>\<open>ValueError\<close> of \<^verbatim>\<open>list.index\<close>: the only exception is
  the \<^verbatim>\<open>KeyError\<close> of a non-terminal that has no entry in the productions. When it
  returns, no two states of the list hold the same items, no state is empty, and every
  recorded transition \<open>(i, X) \<mapsto> j\<close> is between states of the list, for a symbol
  \<open>X\<close> for which \<^verbatim>\<open>goto\<close> of state \<open>i\<close> is not empty, and state \<open>j\<close> holds
  exactly the items of that result. Conversely, for every state \<open>i\<close> of the list and
  every symbol \<open>X\<close>, \<^verbatim>\<open>goto\<close> returns; an empty result has no transition, and a
  result that is not empty has its transition recorded, to the index of the state of
  the list that holds exactly its items (there is one such state only, the states being
  distinct), be it a state added for it or one that was in the list before.
\<close>

theorem canonical_collection_terminates_distinct_complete:
  "(\<exists>N. \<forall>fuel \<ge> N. build_canonical_collection fuel g aug symbols \<noteq> OutOfFuel)
   \<and> (build_canonical_collection fuel g aug symbols = Raises e \<longrightarrow>
        e = KeyError \<and> (\<exists>A \<in> set (non_terminals aug). map_of (productions aug) A = None))
   \<and> (build_canonical_collection fuel g aug symbols = Returns (states, trs) \<longrightarrow>
        distinct (map set states) \<and> [] \<notin> set states
        \<and> (\<forall>i X j. map_of trs (i, X) = Some j \<longrightarrow>
              i < length states \<and> j < length states \<and> X \<in> set symbols
              \<and> (\<exists>r. goto fuel aug (states ! i) X = Returns r \<and> r \<noteq> [] \<and> set (states ! j) = set r))
        \<and> (\<forall>i X. i < length states \<and> X \<in> set symbols \<longrightarrow>
              (\<exists>r. goto fuel aug (states ! i) X = Returns r
                 \<and> (r = [] \<longrightarrow> map_of trs (i, X) = None)
                 \<and> (r \<noteq> [] \<longrightarrow>
                      (\<exists>j. map_of trs (i, X) = Some j \<and> j < length states
                           \<and> set (states ! j) = set r)))))"
proof -
  let ?seed = "(S_prime, start_symbol g, 0 :: nat)"
  let ?U = "item_universe aug {?seed}"
  have U: "initial_items_of aug \<subseteq> ?U" "advanced_items ?U \<subseteq> ?U" "finite ?U"
    by (simp_all add: item_universe_initial item_universe_advanced finite_item_universe)
  have start_ok: "collection_ok cfuel aug symbols ?U ([init], [])"
    if "closure fuel' aug [?seed] = Returns init" for cfuel fuel' init
  proof -
    from that have "set [?seed] \<subseteq> set init \<and> set init \<subseteq> set [?seed] \<union> initial_items_of aug"
      unfolding closure_def by (rule closure_loop_result)
    moreover have "?seed \<in> ?U" using item_universe_seeds [of "{?seed}" aug] by simp
    ultimately have "init \<noteq> []" and "set init \<subseteq> ?U" using U(1) by auto
    then show ?thesis by (simp add: collection_ok_def)
  qed
  have ends: "build_canonical_collection fuel' g aug symbols \<noteq> OutOfFuel" if "2 ^ card ?U \<le> fuel'" for fuel'
  proof -
    have "card (initial_items_of aug) \<le> card ?U" using U by (intro card_mono) auto
    also have "\<dots> < 2 ^ card ?U" by simp
    finally have c: "card (initial_items_of aug) < fuel'" using that by simp
    have "card (initial_items_of aug - set [?seed]) \<le> card (initial_items_of aug)"
      by (intro card_mono) auto
    with c have cl: "closure fuel' aug [?seed] \<noteq> OutOfFuel"
      unfolding closure_def by (intro closure_loop_terminates) simp
    show ?thesis
    proof (cases "closure fuel' aug [?seed]")
      case (Returns init)
      have "canonical_loop fuel' fuel' aug symbols ([init], []) 0 \<noteq> OutOfFuel"
        using U c start_ok [OF Returns] that by (intro canonical_loop_terminates) auto
      with Returns show ?thesis by (simp add: build_canonical_collection_def)
    next
      case (Raises e)
      then show ?thesis by (simp add: build_canonical_collection_def)
    next
      case OutOfFuel
      with cl show ?thesis by simp
    qed
  qed
  have result: "distinct (map set states) \<and> [] \<notin> set states
        \<and> (\<forall>i X j. map_of trs (i, X) = Some j \<longrightarrow>
              i < length states \<and> j < length states \<and> X \<in> set symbols
              \<and> (\<exists>r. goto fuel aug (states ! i) X = Returns r \<and> r \<noteq> [] \<and> set (states ! j) = set r))
        \<and> (\<forall>i X. i < length states \<and> X \<in> set symbols \<longrightarrow>
              (\<exists>r. goto fuel aug (states ! i) X = Returns r
                 \<and> (r = [] \<longrightarrow> map_of trs (i, X) = None)
                 \<and> (r \<noteq> [] \<longrightarrow>
                      (\<exists>j. map_of trs (i, X) = Some j \<and> j < length states
                           \<and> set (states ! j) = set r))))"
    if "build_canonical_collection fuel g aug symbols = Returns (states, trs)"
  proof -
    from that obtain init where init: "closure fuel aug [?seed] = Returns init"
      and run: "canonical_loop fuel fuel aug symbols ([init], []) 0 = Returns (states, trs)"
      by (auto simp: build_canonical_collection_def then_do_Returns)
    have "collection_ok fuel aug symbols ?U (states, trs)"
      using U(1,2) run start_ok [OF init] by (rule canonical_loop_ok)
    then have sound: "distinct (map set states) \<and> [] \<notin> set states
        \<and> (\<forall>i X j. map_of trs (i, X) = Some j \<longrightarrow>
              i < length states \<and> j < length states \<and> X \<in> set symbols
              \<and> (\<exists>r. goto fuel aug (states ! i) X = Returns r \<and> r \<noteq> [] \<and> set (states ! j) = set r))"
      by (simp add: collection_ok_def)
    have "\<forall>k < length (fst (states, trs)). \<forall>X \<in> set symbols.
        \<exists>r. goto fuel aug (fst (states, trs) ! k) X = Returns r
           \<and> (r \<noteq> [] \<longrightarrow> map_of (snd (states, trs)) (k, X) \<noteq> None)"
      using U(1,2) run start_ok [OF init] by (rule canonical_loop_complete) simp_all
    then have recorded: "\<exists>r. goto fuel aug (states ! i) X = Returns r \<and> (r \<noteq> [] \<longrightarrow> map_of trs (i, X) \<noteq> None)"
      if "i < length states" "X \<in> set symbols" for i X
      using that by simp
    have complete: "\<exists>r. goto fuel aug (states ! i) X = Returns r
                 \<and> (r = [] \<longrightarrow> map_of trs (i, X) = None)
                 \<and> (r \<noteq> [] \<longrightarrow>
                      (\<exists>j. map_of trs (i, X) = Some j \<and> j < length states
                           \<and> set (states ! j) = set r))"
      if iX: "i < length states \<and> X \<in> set symbols" for i X
    proof -
      from recorded iX obtain r where
        r: "goto fuel aug (states ! i) X = Returns r" "r \<noteq> [] \<longrightarrow> map_of trs (i, X) \<noteq> None"
        by blast
      have known: "j < length states \<and> r \<noteq> [] \<and> set (states ! j) = set r"
        if "map_of trs (i, X) = Some j" for j
        using sound that r(1) by fastforce
      have "map_of trs (i, X) = None" if "r = []"
        using known that by (cases "map_of trs (i, X)") auto
      moreover have "\<exists>j. map_of trs (i, X) = Some j \<and> j < length states \<and> set (states ! j) = set r"
        if "r \<noteq> []"
        using known r(2) that by (cases "map_of trs (i, X)") auto
      ultimately show ?thesis using r(1) by blast
    qed
    from sound complete show ?thesis by blast
  qed
  show ?thesis
  proof (intro conjI)
    show "\<exists>N. \<forall>fuel \<ge> N. build_canonical_collection fuel g aug symbols \<noteq> OutOfFuel"
      using ends by blast
  next
    show "build_canonical_collection fuel g aug symbols = Raises e \<longrightarrow>
        e = KeyError \<and> (\<exists>A \<in> set (non_terminals aug). map_of (productions aug) A = None)"
      by (rule impI) (rule build_canonical_collection_raises)
  next
    show "build_canonical_collection fuel g aug symbols = Returns (states, trs) \<longrightarrow>
        distinct (map set states) \<and> [] \<notin> set states
        \<and> (\<forall>i X j. map_of trs (i, X) = Some j \<longrightarrow>
              i < length states \<and> j < length states \<and> X \<in> set symbols
              \<and> (\<exists>r. goto fuel aug (states ! i) X = Returns r \<and> r \<noteq> [] \<and> set (states ! j) = set r))
        \<and> (\<forall>i X. i < length states \<and> X \<in> set symbols \<longrightarrow>
              (\<exists>r. goto fuel aug (states ! i) X = Returns r
                 \<and> (r = [] \<longrightarrow> map_of trs (i, X) = None)
                 \<and> (r \<noteq> [] \<longrightarrow>
                      (\<exists>j. map_of trs (i, X) = Some j \<and> j < length states
                           \<and> set (states ! j) = set r))))"
      by (rule impI) (rule result)
  qed
qed

text \<open>
  The grammar \<open>S \<rightarrow> aS | b\<close>: five states. The transition of state 1 on \<open>a\<close> leads
  back to state 1, and its transition on \<open>b\<close> to state 2, which state 0 had added:
  both are recorded at the index of the state that was in the list already. The
  grammar \<open>A \<rightarrow> S\<close>, whose start symbol \<open>S\<close> has no production, ends with the
  \<^verbatim>\<open>KeyError\<close>.
\<close>

theorem canonical_collection_terminates_distinct_complete_witness:
  "build_canonical_collection 5 (grammar_of [(''S'', [''aS'', ''b''])])
       (augment_grammar (grammar_of [(''S'', [''aS'', ''b''])]))
       (symbols_union (augment_grammar (grammar_of [(''S'', [''aS'', ''b''])])))
     = Returns ([[(S_prime, ''S'', 0), (''S'', ''aS'', 0), (''S'', ''b'', 0)],
                 [(''S'', ''aS'', 1), (''S'', ''aS'', 0), (''S'', ''b'', 0)],
                 [(''S'', ''b'', 1)],
                 [(S_prime, ''S'', 1)],
                 [(''S'', ''aS'', 2)]],
                [((0, ''a''), 1), ((0, ''b''), 2), ((0, ''S''), 3),
                 ((1, ''a''), 1), ((1, ''b''), 2), ((1, ''S''), 4)])
   \<and> distinct (map set [[(S_prime, ''S'', 0 :: nat), (''S'', ''aS'', 0), (''S'', ''b'', 0)],
                 [(''S'', ''aS'', 1), (''S'', ''aS'', 0), (''S'', ''b'', 0)],
                 [(''S'', ''b'', 1)],
                 [(S_prime, ''S'', 1)],
                 [(''S'', ''aS'', 2)]])
   \<and> (\<exists>r. goto 5 (augment_grammar (grammar_of [(''S'', [''aS'', ''b''])]))
            [(''S'', ''aS'', 1), (''S'', ''aS'', 0), (''S'', ''b'', 0)] ''a''
          = Returns r
        \<and> r \<noteq> []
        \<and> set [(''S'', ''aS'', 1), (''S'', ''aS'', 0), (''S'', ''b'', 0)] = set r)
   \<and> (\<exists>r. goto 5 (augment_grammar (grammar_of [(''S'', [''aS'', ''b''])]))
            [(''S'', ''aS'', 1), (''S'', ''aS'', 0), (''S'', ''b'', 0)] ''b''
          = Returns r
        \<and> (\<exists>j. map_of [((0 :: nat, ''a''), 1 :: nat), ((0, ''b''), 2), ((0, ''S''), 3),
                         ((1, ''a''), 1), ((1, ''b''), 2), ((1, ''S''), 4)] (1, ''b'') = Some j
               \<and> j = 2
               \<and> set ([[(S_prime, ''S'', 0), (''S'', ''aS'', 0), (''S'', ''b'', 0)],
                       [(''S'', ''aS'', 1), (''S'', ''aS'', 0), (''S'', ''b'', 0)],
                       [(''S'', ''b'', 1)],
                       [(S_prime, ''S'', 1)],
                       [(''S'', ''aS'', 2)]] ! j) = set r))
   \<and> (\<exists>r. goto 5 (augment_grammar (grammar_of [(''S'', [''aS'', ''b''])])) [(''S'', ''aS'', 2)] ''a''
          = Returns r
        \<and> r = []
        \<and> map_of [((0 :: nat, ''a''), 1 :: nat), ((0, ''b''), 2), ((0, ''S''), 3),
                   ((1, ''a''), 1), ((1, ''b''), 2), ((1, ''S''), 4)] (4, ''a'') = None)
   \<and> (\<exists>N. \<forall>fuel \<ge> N.
          build_canonical_collection fuel (grammar_of [(''S'', [''aS'', ''b''])])
            (augment_grammar (grammar_of [(''S'', [''aS'', ''b''])]))
            (symbols_union (augment_grammar (grammar_of [(''S'', [''aS'', ''b''])]))) \<noteq> OutOfFuel)
   \<and> build_canonical_collection 5 (grammar_of [(''A'', [''S''])])
       (augment_grammar (grammar_of [(''A'', [''S''])]))
       (symbols_union (augment_grammar (grammar_of [(''A'', [''S''])])))
     = Raises KeyError
   \<and> (\<exists>A \<in> set (non_terminals (augment_grammar (grammar_of [(''A'', [''S''])]))).
          map_of (productions (augment_grammar (grammar_of [(''A'', [''S''])]))) A = None)"
proof -
  let ?g = "grammar_of [(''S'', [''aS'', ''b''])]"
  let ?aug = "augment_grammar ?g"
  let ?syms = "symbols_union ?aug"
  let ?s1 = "[(''S'', ''aS'', 1 :: nat), (''S'', ''aS'', 0), (''S'', ''b'', 0)]"
  let ?s4 = "[(''S'', ''aS'', 2 :: nat)]"
  let ?states = "[[(S_prime, ''S'', 0 :: nat), (''S'', ''aS'', 0), (''S'', ''b'', 0)],
                 ?s1, [(''S'', ''b'', 1)], [(S_prime, ''S'', 1)], ?s4]"
  let ?trs = "[((0 :: nat, ''a''), 1 :: nat), ((0, ''b''), 2), ((0, ''S''), 3),
                 ((1, ''a''), 1), ((1, ''b''), 2), ((1, ''S''), 4)]"
  let ?h = "grammar_of [(''A'', [''S''])]"
  note inst = canonical_collection_terminates_distinct_complete [of ?g ?aug ?syms 5 _ ?states ?trs]
  note fails = canonical_collection_terminates_distinct_complete
    [of ?h "augment_grammar ?h" "symbols_union (augment_grammar ?h)" 5 KeyError]
  have b: "build_canonical_collection 5 ?g ?aug ?syms = Returns (?states, ?trs)"
    by code_simp
  have k: "build_canonical_collection 5 ?h (augment_grammar ?h) (symbols_union (augment_grammar ?h))
      = Raises KeyError"
    by code_simp
  have syms: "?syms = [''a'', ''b'', ''S'', S_prime]"
    by code_simp
  note r = conjunct2 [OF conjunct2 [OF inst], THEN mp, OF b]
  note sound = conjunct1 [OF conjunct2 [OF conjunct2 [OF r]]]
  note complete = conjunct2 [OF conjunct2 [OF conjunct2 [OF r]]]
  have m: "map_of ?trs (1, ''a'') = Some 1" by simp
  have n1: "?states ! 1 = ?s1" by simp
  have n4: "?states ! 4 = ?s4" by simp
  note t = conjunct2 [OF conjunct2 [OF conjunct2 [OF sound [rule_format, OF m]]]]
  have into_itself: "\<exists>r. goto 5 ?aug ?s1 ''a'' = Returns r \<and> r \<noteq> [] \<and> set ?s1 = set r"
    using t unfolding n1 .
  have i1: "1 < length ?states \<and> ''b'' \<in> set ?syms" unfolding syms by simp
  have i4: "4 < length ?states \<and> ''a'' \<in> set ?syms" unfolding syms by simp
  have gb: "goto 5 ?aug ?s1 ''b'' = Returns [(''S'', ''b'', 1)]" by code_simp
  have ga: "goto 5 ?aug ?s4 ''a'' = Returns []" by code_simp
  from complete [rule_format, OF i1] obtain q where
    q: "goto 5 ?aug (?states ! 1) ''b'' = Returns q"
       "q \<noteq> [] \<longrightarrow> (\<exists>j. map_of ?trs (1, ''b'') = Some j \<and> j < length ?states \<and> set (?states ! j) = set q)"
    by blast
  from q(1) gb have "q = [(''S'', ''b'', 1)]" unfolding n1 by simp
  with q(2) obtain j where j: "map_of ?trs (1, ''b'') = Some j" "set (?states ! j) = set q"
    by blast
  from j(1) have "j = 2" by simp
  with j q(1) have into_older: "\<exists>r. goto 5 ?aug ?s1 ''b'' = Returns r
        \<and> (\<exists>j. map_of ?trs (1, ''b'') = Some j \<and> j = 2 \<and> set (?states ! j) = set r)"
    unfolding n1 by blast
  from complete [rule_format, OF i4] obtain p where
    p: "goto 5 ?aug (?states ! 4) ''a'' = Returns p" "p = [] \<longrightarrow> map_of ?trs (4, ''a'') = None"
    by blast
  from p(1) ga have "p = []" unfolding n4 by simp
  with p have no_entry: "\<exists>r. goto 5 ?aug ?s4 ''a'' = Returns r \<and> r = [] \<and> map_of ?trs (4, ''a'') = None"
    unfolding n4 by blast
  note raised = conjunct1 [OF conjunct2 [OF fails], THEN mp, OF k]
  show ?thesis
    by (intro conjI b conjunct1 [OF r] into_itself into_older no_entry conjunct1 [OF inst] k
          conjunct2 [OF raised])
qed

end
